theory Spec2Isabelle
  imports Complex_Main "HOL-Library.Multiset"
begin

section \<open>Python strings and the Unicode tables\<close>

text \<open>
  A Python \<open>str\<close> is a sequence of Unicode code points. Isabelle's \<open>char\<close> is a byte,
  so a \<open>str\<close> is modelled as a list of code points; \<open>ustr\<close> embeds an ASCII literal.
\<close>

type_synonym pystr = "nat list"

definition ustr :: "string \<Rightarrow> pystr" where
  "ustr s = map of_char s"

text \<open>
  \<open>_extract_keywords\<close> and \<open>save_memory\<close> call into Python's standard library:
  \<open>unicodedata.normalize("NFKD", _)\<close>, \<open>unicodedata.combining\<close>, \<open>str.split\<close> and
  \<open>str.strip\<close> (both cut at the characters for which \<open>isspace\<close> holds), \<open>str.isalnum\<close> and
  \<open>str.lower\<close>. The tables behind them are not part of the repository; they are a
  parameter of the model.
\<close>

record unicode =
  nfkd :: "pystr \<Rightarrow> pystr"
  combining :: "nat \<Rightarrow> nat"
  isspace :: "nat \<Rightarrow> bool"
  isalnum :: "nat \<Rightarrow> bool"
  lower :: "pystr \<Rightarrow> pystr"

text \<open>
  The tables restricted to ASCII, where they are small enough to write down: NFKD leaves
  ASCII text unchanged, no ASCII character is a combining mark, the white space is
  TAB, LF, VT, FF, CR, FS, GS, RS, US and SPACE, the alphanumerics are the digits and
  the letters, and \<open>lower\<close> shifts \<open>A\<close>..\<open>Z\<close>. It agrees with CPython on every string
  of code points below 128; the concrete evaluations below use only such strings.
\<close>

definition ascii_isspace :: "nat \<Rightarrow> bool" where
  "ascii_isspace c = ((9 \<le> c \<and> c \<le> 13) \<or> (28 \<le> c \<and> c \<le> 32))"

definition ascii_isalnum :: "nat \<Rightarrow> bool" where
  "ascii_isalnum c = ((48 \<le> c \<and> c \<le> 57) \<or> (65 \<le> c \<and> c \<le> 90) \<or> (97 \<le> c \<and> c \<le> 122))"

definition ascii_lower :: "pystr \<Rightarrow> pystr" where
  "ascii_lower s = map (\<lambda>c. if 65 \<le> c \<and> c \<le> 90 then c + 32 else c) s"

definition ascii_unicode :: unicode where
  "ascii_unicode = \<lparr> nfkd = (\<lambda>s. s), combining = (\<lambda>c. 0), isspace = ascii_isspace,
     isalnum = ascii_isalnum, lower = ascii_lower \<rparr>"

subsection \<open>\<open>str.split()\<close>, \<open>str.strip()\<close>, \<open>str.join\<close>, \<open>str.replace\<close>, slicing\<close>

text \<open>
  \<open>text.split()\<close> without arguments: the maximal runs of characters that are not white
  space, in order; no empty strings. \<open>cur\<close> is the run being read.
\<close>

fun split_from :: "(nat \<Rightarrow> bool) \<Rightarrow> pystr \<Rightarrow> pystr \<Rightarrow> pystr list" where
  "split_from sp cur [] = (if cur = [] then [] else [cur])"
| "split_from sp cur (c # cs) =
     (if sp c then (if cur = [] then split_from sp [] cs else cur # split_from sp [] cs)
      else split_from sp (cur @ [c]) cs)"

definition py_split :: "unicode \<Rightarrow> pystr \<Rightarrow> pystr list" where
  "py_split U text = split_from (isspace U) [] text"

definition py_strip :: "unicode \<Rightarrow> pystr \<Rightarrow> pystr" where
  "py_strip U text = rev (dropWhile (isspace U) (rev (dropWhile (isspace U) text)))"

fun py_join :: "pystr \<Rightarrow> pystr list \<Rightarrow> pystr" where
  "py_join sep [] = []"
| "py_join sep [x] = x"
| "py_join sep (x # y # ys) = x @ sep @ py_join sep (y # ys)"

text \<open>\<open>s.replace(old, new)\<close> for a one-character \<open>old\<close>.\<close>

definition py_replace1 :: "nat \<Rightarrow> pystr \<Rightarrow> pystr \<Rightarrow> pystr" where
  "py_replace1 old new s = concat (map (\<lambda>c. if c = old then new else [c]) s)"

text \<open>
  \<open>xs[:n]\<close>: the first \<open>n\<close> elements, and for a negative \<open>n\<close> all but the last \<open>-n\<close>.
\<close>

definition py_slice_to :: "'a list \<Rightarrow> int \<Rightarrow> 'a list" where
  "py_slice_to xs n = (if 0 \<le> n then take (nat n) xs else take (length xs - nat (- n)) xs)"

section \<open>The text normalizer: \<open>RedisMemoryStore._extract_keywords\<close>\<close>

definition STOP_WORDS :: "pystr set" where
  "STOP_WORDS = set (map ustr
     [''a'', ''al'', ''algo'', ''como'', ''con'', ''cual'', ''de'', ''del'', ''el'',
      ''en'', ''es'', ''eso'', ''esta'', ''esto'', ''fue'', ''ha'', ''hay'', ''la'',
      ''las'', ''le'', ''lo'', ''los'', ''me'', ''mi'', ''muy'', ''no'', ''nos'', ''o'',
      ''para'', ''pero'', ''por'', ''que'', ''se'', ''si'', ''sin'', ''so'', ''son'',
      ''su'', ''te'', ''tu'', ''un'', ''una'', ''uno'', ''y'', ''ya'',
      ''a'', ''an'', ''and'', ''are'', ''as'', ''at'', ''be'', ''but'', ''by'', ''do'',
      ''for'', ''from'', ''has'', ''have'', ''he'', ''her'', ''his'', ''how'', ''i'',
      ''if'', ''in'', ''is'', ''it'', ''its'', ''my'', ''not'', ''of'', ''on'', ''or'',
      ''our'', ''she'', ''so'', ''that'', ''the'', ''their'', ''them'', ''they'',
      ''this'', ''to'', ''was'', ''we'', ''what'', ''when'', ''which'', ''who'',
      ''will'', ''with'', ''you'', ''your''])"

text \<open>
  The loop \<open>for word in ascii_text.split(): ...\<close> with its accumulator \<open>words\<close>;
  \<open>clean\<close> is what \<open>"".join(c for c in word if c.isalnum())\<close> builds, and
  it is \<open>clean\<close> itself, not \<open>clean.lower()\<close>, that is appended.
\<close>

fun keyword_loop :: "unicode \<Rightarrow> pystr list \<Rightarrow> pystr list \<Rightarrow> pystr list" where
  "keyword_loop U words [] = words"
| "keyword_loop U words (word # rest) =
     (let clean = filter (isalnum U) word in
      if clean \<noteq> [] \<and> lower U clean \<notin> STOP_WORDS \<and> length clean > 1
      then keyword_loop U (words @ [clean]) rest
      else keyword_loop U words rest)"

definition strip_accents :: "unicode \<Rightarrow> pystr \<Rightarrow> pystr" where
  "strip_accents U text = filter (\<lambda>c. combining U c = 0) (nfkd U text)"

definition extract_keywords :: "unicode \<Rightarrow> pystr \<Rightarrow> pystr list" where
  "extract_keywords U text = keyword_loop U [] (py_split U (strip_accents U text))"

text \<open>
  The normalizer as the specification words it: the units of the accent-stripped text,
  each cleaned of its non-alphanumeric characters, those kept that are not empty, are
  longer than one character and whose lowercased form is no stop word.
\<close>

definition keeps :: "unicode \<Rightarrow> pystr \<Rightarrow> bool" where
  "keeps U t = (t \<noteq> [] \<and> 1 < length t \<and> lower U t \<notin> STOP_WORDS)"

definition normalize_spec :: "unicode \<Rightarrow> pystr \<Rightarrow> pystr list" where
  "normalize_spec U text =
     filter (keeps U) (map (filter (isalnum U)) (py_split U (strip_accents U text)))"

section \<open>Query escaping: \<open>RedisMemoryStore._escape_query\<close>\<close>

text \<open>
  \<open>special_chars\<close> is the raw string literal of the source, character by character:
  \<open>@.{}()[]!|&~*^$\<close>, a backslash, \<open>-:+=><%#\<close>, a backslash, a double quote,
  a single quote and \<open>/\<close>.
\<close>

definition backslash :: nat where
  "backslash = 92"

definition special_chars :: pystr where
  "special_chars =
     [64, 46, 123, 125, 40, 41, 91, 93, 33, 124, 38, 126, 42, 94, 36, 92,
      45, 58, 43, 61, 62, 60, 37, 35, 92, 34, 39, 47]"

fun escape_loop :: "pystr list \<Rightarrow> pystr \<Rightarrow> pystr list" where
  "escape_loop escaped [] = escaped"
| "escape_loop escaped (char # rest) =
     (if char \<in> set special_chars
      then escape_loop (escaped @ [[backslash, char]]) rest
      else escape_loop (escaped @ [[char]]) rest)"

definition escape_query :: "pystr \<Rightarrow> pystr" where
  "escape_query text = py_join [] (escape_loop [] text)"

text \<open>
  The escaping as the specification words it: every character that the search engine
  reserves is prefixed by a backslash, every other character passes unchanged. Which
  characters the engine reserves is the engine's matter, not the repository's: the set
  is a parameter.
\<close>

definition escape_reserved :: "nat set \<Rightarrow> pystr \<Rightarrow> pystr" where
  "escape_reserved reserved token =
     concat (map (\<lambda>c. if c \<in> reserved then [backslash, c] else [c]) token)"

text \<open>
  The punctuation that the documentation of RediSearch lists as separating tokens unless
  escaped, \<open>,.<>{}[]"':;!@#$%^&*()-+=~\<close>, and the space. The list of the source is
  another one: it holds \<open>|\<close>, the backslash and \<open>/\<close> in addition, and neither the comma
  nor the semicolon.
\<close>

definition redisearch_reserved :: pystr where
  "redisearch_reserved =
     [44, 46, 60, 62, 123, 125, 91, 93, 34, 39, 58, 59, 33, 64, 35, 36, 37, 94, 38, 42,
      40, 41, 45, 43, 61, 126, 32]"

text \<open>
  The query string \<open>search_memories\<close> composes from the keywords:
  \<open>escaped_terms\<close>, \<open>text_query\<close> and \<open>full_query\<close>. \<open>escaped_user_id\<close> is the field
  the constructor computes.
\<close>

definition escaped_user_id :: "pystr \<Rightarrow> pystr" where
  "escaped_user_id uid = py_replace1 45 [backslash, 45] uid"

definition owner_query :: "pystr \<Rightarrow> pystr" where
  "owner_query uid = ustr ''@user_id:{'' @ escaped_user_id uid @ ustr ''}''"

definition text_query :: "pystr list \<Rightarrow> pystr" where
  "text_query keywords = py_join (ustr '' | '') (map escape_query keywords)"

definition full_query :: "pystr \<Rightarrow> pystr list \<Rightarrow> pystr" where
  "full_query uid keywords =
     owner_query uid @ ustr '' ('' @ text_query keywords @ ustr '')''"

section \<open>The fact store: \<open>RedisMemoryStore\<close>\<close>

text \<open>
  Every memory is a Redis hash with the fields \<open>content\<close>, \<open>user_id\<close> and \<open>timestamp\<close>.
  The keyspace is the list of keys with their hashes, in the order in which the keys
  were created; it holds the hashes that \<open>save_memory\<close> writes.
\<close>

record memory =
  content :: pystr
  user_id :: pystr
  timestamp :: pystr

type_synonym redis = "(pystr \<times> memory) list"

datatype redis_error = ResponseError | ConnectionError

text \<open>
  \<open>self.r.ft(INDEX_NAME).search(q)\<close> is RediSearch: it parses the query string, matches
  and ranks. That engine is not part of the repository; it is a parameter of the model,
  a function of the keyspace, the query string and the two arguments of \<open>paging\<close>, which
  returns the documents or raises.
\<close>

type_synonym ft_search = "redis \<Rightarrow> pystr \<Rightarrow> int \<Rightarrow> int \<Rightarrow> redis_error + memory list"

definition PREFIX :: pystr where
  "PREFIX = ustr ''memory:''"

definition has_prefix :: "pystr \<Rightarrow> bool" where
  "has_prefix key = (take (length PREFIX) key = PREFIX)"

definition get_all_memories :: "ft_search \<Rightarrow> redis \<Rightarrow> pystr \<Rightarrow> redis_error + pystr list" where
  "get_all_memories ft r uid =
     (case ft r (owner_query uid) 0 100 of
        Inr docs \<Rightarrow> Inr (map content docs)
      | Inl ResponseError \<Rightarrow> Inr []
      | Inl e \<Rightarrow> Inl e)"

text \<open>\<open>r.hset(key, mapping=...)\<close>: a new key is created, an existing one overwritten.\<close>

fun hset :: "redis \<Rightarrow> pystr \<Rightarrow> memory \<Rightarrow> redis" where
  "hset [] key m = [(key, m)]"
| "hset ((k, v) # rest) key m =
     (if k = key then (key, m) # rest else (k, v) # hset rest key m)"

text \<open>The loop \<open>for mem in existing\<close> of \<open>save_memory\<close>, which returns at the first match.\<close>

fun is_duplicate :: "unicode \<Rightarrow> pystr \<Rightarrow> pystr list \<Rightarrow> bool" where
  "is_duplicate U normalized [] = False"
| "is_duplicate U normalized (mem # rest) =
     (if lower U (py_strip U mem) = normalized then True else is_duplicate U normalized rest)"

text \<open>
  \<open>save_memory\<close> returns the key of the new hash, or the empty string for a duplicate.
  \<open>hex12\<close> stands for \<open>uuid.uuid4().hex[:12]\<close> and \<open>now\<close> for \<open>str(int(time.time()))\<close>.
\<close>

definition save_memory ::
  "unicode \<Rightarrow> ft_search \<Rightarrow> redis \<Rightarrow> pystr \<Rightarrow> pystr \<Rightarrow> pystr \<Rightarrow> pystr \<Rightarrow> redis_error + (pystr \<times> redis)" where
  "save_memory U ft r uid c hex12 now =
     (case get_all_memories ft r uid of
        Inl e \<Rightarrow> Inl e
      | Inr existing \<Rightarrow>
          (let normalized = lower U (py_strip U c) in
           if is_duplicate U normalized existing then Inr ([], r)
           else (let memory_id = PREFIX @ hex12 in
                 Inr (memory_id, hset r memory_id \<lparr> content = c, user_id = uid, timestamp = now \<rparr>))))"

text \<open>\<open>except redis.ResponseError: return []\<close> around the body of \<open>search_memories\<close>.\<close>

definition except_ResponseError :: "redis_error + pystr list \<Rightarrow> redis_error + pystr list" where
  "except_ResponseError res = (case res of Inl ResponseError \<Rightarrow> Inr [] | _ \<Rightarrow> res)"

definition search_memories ::
  "unicode \<Rightarrow> ft_search \<Rightarrow> redis \<Rightarrow> pystr \<Rightarrow> pystr \<Rightarrow> int \<Rightarrow> redis_error + pystr list" where
  "search_memories U ft r uid query max_results =
     except_ResponseError
       (let keywords = extract_keywords U query in
        if keywords = [] then
          (case get_all_memories ft r uid of
             Inl e \<Rightarrow> Inl e
           | Inr memories \<Rightarrow> Inr (py_slice_to memories max_results))
        else
          (case ft r (full_query uid keywords) 0 max_results of
             Inl e \<Rightarrow> Inl e
           | Inr docs \<Rightarrow> Inr (map content docs)))"

text \<open>\<open>r.hget(key, "user_id")\<close> (\<open>None\<close> for a key that does not exist) and \<open>r.delete(key)\<close>.\<close>

definition hget_user_id :: "redis \<Rightarrow> pystr \<Rightarrow> pystr option" where
  "hget_user_id r key = map_option user_id (map_of r key)"

definition delete :: "redis \<Rightarrow> pystr \<Rightarrow> redis" where
  "delete r key = filter (\<lambda>(k, m). k \<noteq> key) r"

text \<open>
  The loop of \<open>clear_memories\<close> over the keys that \<open>scan_iter("memory:*")\<close> yields.
  Redis promises that a scan returns every key that is present from its start to its end,
  in no particular order and possibly more than once; \<open>scanned\<close> is the sequence
  yielded, \<open>scan_iter\<close> says that it is a scan of the keyspace, and \<open>cnt\<close> is the
  counter \<open>count\<close> of the source.
\<close>

fun clear_loop :: "pystr \<Rightarrow> redis \<Rightarrow> nat \<Rightarrow> pystr list \<Rightarrow> nat \<times> redis" where
  "clear_loop uid r cnt [] = (cnt, r)"
| "clear_loop uid r cnt (key # keys) =
     (if hget_user_id r key = Some uid
      then clear_loop uid (delete r key) (cnt + 1) keys
      else clear_loop uid r cnt keys)"

definition scan_iter :: "redis \<Rightarrow> pystr list \<Rightarrow> bool" where
  "scan_iter r scanned = (set scanned = set (filter has_prefix (map fst r)))"

definition clear_memories ::
  "ft_search \<Rightarrow> redis \<Rightarrow> pystr \<Rightarrow> pystr list \<Rightarrow> redis_error + (nat \<times> redis)" where
  "clear_memories ft r uid scanned =
     (case get_all_memories ft r uid of
        Inl e \<Rightarrow> Inl e
      | Inr memories \<Rightarrow> Inr (clear_loop uid r 0 scanned))"

text \<open>The facts of an owner: the hashes under the prefix that carry the owner's id.\<close>

definition facts_of :: "redis \<Rightarrow> pystr \<Rightarrow> (pystr \<times> memory) list" where
  "facts_of r uid = filter (\<lambda>(k, m). has_prefix k \<and> user_id m = uid) r"

text \<open>
  Modelled from the spec: the index provider's owner-scoped query of section 6, for the
  query \<open>@user_id:{...}\<close> that \<open>get_all_memories\<close> sends. The index covers the hashes
  under the prefix; a hash matches when the query is the one composed from its own
  \<open>user_id\<close>; the documents come in the store's default order, here the order of
  creation, cut by \<open>paging\<close>.
\<close>

definition owner_search :: ft_search where
  "owner_search r q offset num =
     (if offset < 0 \<or> num < 0 then Inl ResponseError
      else Inr (take (nat num) (drop (nat offset)
             (filter (\<lambda>m. owner_query (user_id m) = q) (map snd (filter (\<lambda>(k, m). has_prefix k) r))))))"

text \<open>Two engines that always raise, for the error paths.\<close>

definition rejecting_search :: ft_search where
  "rejecting_search r q offset num = Inl ResponseError"

definition unreachable_search :: ft_search where
  "unreachable_search r q offset num = Inl ConnectionError"

section \<open>Hybrid search: \<open>HYBRID_SEARCH_SQL\<close> and \<open>PostgresHybridRetriever\<close>\<close>

text \<open>
  The two common table expressions \<open>semantic_search\<close> and \<open>keyword_search\<close> rank the
  products with pgvector's distance operator and with PostgreSQL's text search; neither
  is part of the repository. The model starts from their results, two tables of rows
  \<open>(id, rank)\<close>, and embeds the final \<open>SELECT\<close>: the full outer join on \<open>id\<close>, the two
  \<open>COALESCE\<close> expressions, \<open>ORDER BY score DESC\<close> and \<open>LIMIT\<close>.

  Ids are \<open>SERIAL\<close> and ranks the \<open>bigint\<close> of \<open>RANK()\<close>; both are integers here.
  A score is a \<open>numeric\<close>, a decimal fraction, and a rational here; the sum of two
  numerics is exact.
\<close>

type_synonym ranking = "(int \<times> int) list"

datatype db_error = DataError

text \<open>A row of the join: a row of each side, or of one side with the other \<open>NULL\<close>.\<close>

datatype joined = Both "int \<times> int" "int \<times> int" | LeftOnly "int \<times> int" | RightOnly "int \<times> int"

definition full_outer_join :: "ranking \<Rightarrow> ranking \<Rightarrow> joined list" where
  "full_outer_join semantic keyword =
     concat (map (\<lambda>s. case filter (\<lambda>kw. fst kw = fst s) keyword of
                          [] \<Rightarrow> [LeftOnly s]
                        | ms \<Rightarrow> map (Both s) ms) semantic)
     @ map RightOnly (filter (\<lambda>kw. fst kw \<notin> fst ` set semantic) keyword)"

fun semantic_rank :: "joined \<Rightarrow> int option" where
  "semantic_rank (Both s kw) = Some (snd s)"
| "semantic_rank (LeftOnly s) = Some (snd s)"
| "semantic_rank (RightOnly kw) = None"

fun keyword_rank :: "joined \<Rightarrow> int option" where
  "keyword_rank (Both s kw) = Some (snd kw)"
| "keyword_rank (LeftOnly s) = None"
| "keyword_rank (RightOnly kw) = Some (snd kw)"

text \<open>\<open>COALESCE(semantic_search.id, keyword_search.id)\<close>\<close>

fun coalesce_id :: "joined \<Rightarrow> int" where
  "coalesce_id (Both s kw) = fst s"
| "coalesce_id (LeftOnly s) = fst s"
| "coalesce_id (RightOnly kw) = fst kw"

text \<open>
  The arithmetic of a score term is PostgreSQL's: \<open>%(k)s + rank\<close> adds the parameter to
  a \<open>bigint\<close> and can raise, \<open>1.0 / n\<close> divides numerics, rounds the quotient and raises
  for a zero divisor. That arithmetic is not part of the repository; it is a parameter
  of the model.
\<close>

record postgres =
  plus_rank :: "int \<Rightarrow> int \<Rightarrow> db_error + int"
  one_over :: "int \<Rightarrow> db_error + rat"

text \<open>
  PostgreSQL's arithmetic written down. The sum of a parameter of an integer type and a
  \<open>bigint\<close> is a \<open>bigint\<close>, and raises when it leaves the range of that type. The
  quotient of \<open>1.0\<close> by a divisor is rounded half away from zero at a scale that gives
  at least sixteen significant digits: 16 places and four more for every base-10000
  digit of the divisor, hence 20 places for a divisor below 10000 (\<open>1.0 / 61\<close> is
  \<open>0.01639344262295081967\<close>). It is declared for a parameter \<open>k\<close> in the range of
  \<open>bigint\<close>; the concrete evaluations below use divisors below 10000.
\<close>

definition base10000_digits :: "int \<Rightarrow> nat" where
  "base10000_digits n =
     (if \<bar>n\<bar> < 10000 then 1 else if \<bar>n\<bar> < 100000000 then 2
      else if \<bar>n\<bar> < 1000000000000 then 3 else if \<bar>n\<bar> < 10000000000000000 then 4 else 5)"

definition numeric_quotient :: "nat \<Rightarrow> int \<Rightarrow> rat" where
  "numeric_quotient places n =
     of_int (sgn n * ((2 * 10 ^ places + \<bar>n\<bar>) div (2 * \<bar>n\<bar>))) / of_int (10 ^ places)"

definition postgres_numeric :: postgres where
  "postgres_numeric =
     \<lparr> plus_rank = (\<lambda>k rank. if - (2 ^ 63) \<le> k + rank \<and> k + rank < 2 ^ 63
                               then Inr (k + rank) else Inl DataError),
       one_over = (\<lambda>n. if n = 0 then Inl DataError
                        else Inr (numeric_quotient (16 + 4 * base10000_digits n) n)) \<rparr>"

text \<open>
  \<open>COALESCE(1.0 / (k + rank), 0.0)\<close>: a \<open>NULL\<close> rank makes the quotient \<open>NULL\<close> and the
  term \<open>0.0\<close>.
\<close>

fun reciprocal :: "postgres \<Rightarrow> int \<Rightarrow> int option \<Rightarrow> db_error + rat" where
  "reciprocal P k None = Inr 0"
| "reciprocal P k (Some rank) =
     (case plus_rank P k rank of Inl e \<Rightarrow> Inl e | Inr n \<Rightarrow> one_over P n)"

definition select_row :: "postgres \<Rightarrow> int \<Rightarrow> joined \<Rightarrow> db_error + (int \<times> rat)" where
  "select_row P k j =
     (case reciprocal P k (semantic_rank j) of
        Inl e \<Rightarrow> Inl e
      | Inr x \<Rightarrow> (case reciprocal P k (keyword_rank j) of
                   Inl e \<Rightarrow> Inl e
                 | Inr y \<Rightarrow> Inr (coalesce_id j, x + y)))"

fun select_rows :: "postgres \<Rightarrow> int \<Rightarrow> joined list \<Rightarrow> db_error + (int \<times> rat) list" where
  "select_rows P k [] = Inr []"
| "select_rows P k (j # js) =
     (case select_row P k j of
        Inl e \<Rightarrow> Inl e
      | Inr row \<Rightarrow> (case select_rows P k js of Inl e \<Rightarrow> Inl e | Inr rows \<Rightarrow> Inr (row # rows)))"

text \<open>
  \<open>ORDER BY score DESC LIMIT n\<close>. SQL fixes the order of the rows by the sort key only:
  rows with equal scores come in whatever order the executor produces. So the clause
  is a relation between the rows and a result: \<open>out\<close> is a possible result when it is
  built by taking, \<open>n\<close> times or until no row is left, a row whose score is maximal among
  those that remain.
\<close>

fun order_by_score_desc_limit :: "(int \<times> rat) list \<Rightarrow> nat \<Rightarrow> (int \<times> rat) list \<Rightarrow> bool" where
  "order_by_score_desc_limit rows 0 out = (out = [])"
| "order_by_score_desc_limit rows (Suc n) [] = (rows = [])"
| "order_by_score_desc_limit rows (Suc n) (row # out) =
     (row \<in> set rows \<and> (\<forall>other \<in> set rows. snd other \<le> snd row)
      \<and> order_by_score_desc_limit (remove1 row rows) n out)"

text \<open>
  The whole statement: \<open>cursor\<close> is a possible outcome of executing it with the
  parameters \<open>k\<close> and \<open>limit\<close>. A negative \<open>LIMIT\<close> makes PostgreSQL raise.
\<close>

definition HYBRID_SEARCH_SQL ::
  "postgres \<Rightarrow> ranking \<Rightarrow> ranking \<Rightarrow> int \<Rightarrow> int \<Rightarrow> db_error + (int \<times> rat) list \<Rightarrow> bool" where
  "HYBRID_SEARCH_SQL P semantic keyword k limit cursor =
     (case select_rows P k (full_outer_join semantic keyword) of
        Inl e \<Rightarrow> cursor = Inl e
      | Inr rows \<Rightarrow>
          if limit < 0 then cursor = Inl DataError
          else (case cursor of
                  Inl e \<Rightarrow> False
                | Inr out \<Rightarrow> order_by_score_desc_limit rows (nat limit) out))"

subsection \<open>The fusion as the specification words it\<close>

text \<open>
  The score of an id: one reciprocal for each list that holds the id. The ids in the
  order in which a scan of the first list and then of the second meets them. The fused
  ranking with the stable tie-break: that sequence, sorted by descending score with a
  stable sort, cut at the limit.
\<close>

definition rrf_score :: "int \<Rightarrow> ranking \<Rightarrow> ranking \<Rightarrow> int \<Rightarrow> rat" where
  "rrf_score k list_a list_b i =
     (case map_of list_a i of None \<Rightarrow> 0 | Some rank \<Rightarrow> 1 / of_int (k + rank))
     + (case map_of list_b i of None \<Rightarrow> 0 | Some rank \<Rightarrow> 1 / of_int (k + rank))"

definition first_encountered :: "ranking \<Rightarrow> ranking \<Rightarrow> int list" where
  "first_encountered list_a list_b =
     map fst list_a @ filter (\<lambda>i. i \<notin> fst ` set list_a) (map fst list_b)"

definition fuse_stable :: "ranking \<Rightarrow> ranking \<Rightarrow> int \<Rightarrow> nat \<Rightarrow> (int \<times> rat) list" where
  "fuse_stable list_a list_b k limit =
     take limit (sort_key (\<lambda>row. - snd row)
       (map (\<lambda>i. (i, rrf_score k list_a list_b i)) (first_encountered list_a list_b)))"

definition descending :: "(int \<times> rat) list \<Rightarrow> bool" where
  "descending out = sorted_wrt (\<lambda>x y. snd y \<le> snd x) out"

text \<open>
  The score as the statement computes it: the two terms as the arithmetic yields them,
  and the rows before \<open>ORDER BY\<close>. \<open>rounded_score\<close> is that score for terms rounded at 20
  places.
\<close>

definition fused_score :: "postgres \<Rightarrow> int \<Rightarrow> ranking \<Rightarrow> ranking \<Rightarrow> int \<Rightarrow> rat" where
  "fused_score P k list_a list_b i =
     (case reciprocal P k (map_of list_a i) of Inl e \<Rightarrow> 0 | Inr x \<Rightarrow> x)
     + (case reciprocal P k (map_of list_b i) of Inl e \<Rightarrow> 0 | Inr y \<Rightarrow> y)"

definition fused :: "postgres \<Rightarrow> int \<Rightarrow> ranking \<Rightarrow> ranking \<Rightarrow> (int \<times> rat) list" where
  "fused P k list_a list_b =
     map (\<lambda>i. (i, fused_score P k list_a list_b i)) (first_encountered list_a list_b)"

definition rounded_score :: "int \<Rightarrow> ranking \<Rightarrow> ranking \<Rightarrow> int \<Rightarrow> rat" where
  "rounded_score k list_a list_b i =
     (case map_of list_a i of None \<Rightarrow> 0 | Some rank \<Rightarrow> numeric_quotient 20 (k + rank))
     + (case map_of list_b i of None \<Rightarrow> 0 | Some rank \<Rightarrow> numeric_quotient 20 (k + rank))"

subsection \<open>\<open>PostgresHybridRetriever._get_relevant_documents\<close>\<close>

text \<open>
  The table \<open>products\<close> without its embedding column. The price is a \<open>REAL\<close>, read as a
  Python float; its type is left open and \<open>fmt\<close> stands for the format \<open>:.2f\<close>.
\<close>

record 'p product =
  product_id :: int
  name :: pystr
  category :: pystr
  price :: 'p
  description :: pystr

record 'p document =
  page_content :: pystr
  metadata :: "pystr \<times> pystr \<times> 'p"

text \<open>\<open>SELECT name, category, price, description FROM products WHERE id = %s\<close>, \<open>fetchone()\<close>\<close>

definition fetchone :: "'p product list \<Rightarrow> int \<Rightarrow> 'p product option" where
  "fetchone products i = find (\<lambda>p. product_id p = i) products"

definition Document :: "('p \<Rightarrow> pystr) \<Rightarrow> 'p product \<Rightarrow> 'p document" where
  "Document fmt row =
     \<lparr> page_content = ustr ''- **'' @ name row @ ustr ''** ('' @ category row @ ustr '', $''
          @ fmt (price row) @ ustr ''): '' @ description row,
       metadata = (name row, category row, price row) \<rparr>"

text \<open>The loop \<open>for product_id in result_ids\<close> with its accumulator \<open>documents\<close>.\<close>

fun hydrate :: "('p \<Rightarrow> pystr) \<Rightarrow> 'p product list \<Rightarrow> 'p document list \<Rightarrow> int list \<Rightarrow> 'p document list" where
  "hydrate fmt products documents [] = documents"
| "hydrate fmt products documents (i # result_ids) =
     (case fetchone products i of
        None \<Rightarrow> hydrate fmt products documents result_ids
      | Some row \<Rightarrow> hydrate fmt products (documents @ [Document fmt row]) result_ids)"

definition documents_of :: "('p \<Rightarrow> pystr) \<Rightarrow> 'p product list \<Rightarrow> db_error + (int \<times> rat) list \<Rightarrow> db_error + 'p document list" where
  "documents_of fmt products cursor =
     (case cursor of
        Inl e \<Rightarrow> Inl e
      | Inr rows \<Rightarrow>
          (let result_ids = map fst rows in
           if result_ids = [] then Inr [] else Inr (hydrate fmt products [] result_ids)))"

text \<open>
  \<open>_get_relevant_documents\<close> executes the statement with \<open>k = 60\<close> and
  \<open>limit = max_results\<close> and hydrates what the cursor returns: \<open>res\<close> is a possible
  result when it comes from a possible outcome \<open>cursor\<close> of the statement.
\<close>

definition get_relevant_documents ::
  "postgres \<Rightarrow> ('p \<Rightarrow> pystr) \<Rightarrow> 'p product list \<Rightarrow> int \<Rightarrow> ranking \<Rightarrow> ranking
     \<Rightarrow> db_error + (int \<times> rat) list \<Rightarrow> db_error + 'p document list \<Rightarrow> bool" where
  "get_relevant_documents P fmt products max_results semantic keyword cursor res =
     (HYBRID_SEARCH_SQL P semantic keyword 60 max_results cursor
      \<and> res = documents_of fmt products cursor)"

section \<open>Example data\<close>

text \<open>A keyspace with three facts of two owners.\<close>

definition two_owners :: redis where
  "two_owners =
     [(PREFIX @ ustr ''0123456789ab'',
         \<lparr> content = ustr ''Likes tea'', user_id = ustr ''u1'', timestamp = ustr ''1'' \<rparr>),
      (PREFIX @ ustr ''0123456789ac'',
         \<lparr> content = ustr ''Lives in Lima'', user_id = ustr ''u2'', timestamp = ustr ''2'' \<rparr>),
      (PREFIX @ ustr ''0123456789ad'',
         \<lparr> content = ustr ''Has a dog'', user_id = ustr ''u1'', timestamp = ustr ''3'' \<rparr>)]"

text \<open>
  A keyspace with one hundred facts of the owner \<open>u1\<close>, with the contents \<open>fact 00\<close> to
  \<open>fact 99\<close>.
\<close>

definition digits2 :: "nat \<Rightarrow> pystr" where
  "digits2 i = [48 + i div 10, 48 + i mod 10]"

definition hundred_facts :: redis where
  "hundred_facts =
     map (\<lambda>i. (PREFIX @ ustr ''0000000000'' @ digits2 i,
               \<lparr> content = ustr ''fact '' @ digits2 i, user_id = ustr ''u1'', timestamp = ustr ''0'' \<rparr>))
       [0..<100]"

text \<open>A catalog of three products; the price is kept as its formatted text.\<close>

definition catalog :: "pystr product list" where
  "catalog =
     [\<lparr> product_id = 1, name = ustr ''Boots'', category = ustr ''Footwear'',
        price = ustr ''129.99'', description = ustr ''Hiking boots'' \<rparr>,
      \<lparr> product_id = 2, name = ustr ''Poles'', category = ustr ''Hiking'',
        price = ustr ''59.00'', description = ustr ''Trekking poles'' \<rparr>,
      \<lparr> product_id = 3, name = ustr ''Tent'', category = ustr ''Camping'',
        price = ustr ''249.50'', description = ustr ''Two person tent'' \<rparr>]"

section \<open>Evaluation of the definitions on concrete inputs\<close>

lemmas string_defs = ustr_def backslash_def special_chars_def PREFIX_def has_prefix_def
  py_replace1_def escaped_user_id_def owner_query_def text_query_def full_query_def
  escape_query_def

lemmas unicode_defs = ascii_unicode_def ascii_isspace_def ascii_isalnum_def ascii_lower_def
  py_split_def py_strip_def strip_accents_def extract_keywords_def STOP_WORDS_def Let_def

lemmas store_defs = get_all_memories_def owner_search_def rejecting_search_def
  unreachable_search_def search_memories_def except_ResponseError_def py_slice_to_def
  two_owners_def

section \<open>The text normalizer\<close>

lemma keyword_loop_filter:
  "keyword_loop U words ws = words @ filter (keeps U) (map (filter (isalnum U)) ws)"
  by (induction ws arbitrary: words) (auto simp: keeps_def Let_def)

text \<open>
  The units of \<open>py_split\<close>: none is empty, none holds white space, and together they
  are the text without its white space.
\<close>

lemma split_from_concat: "concat (split_from sp cur s) = cur @ filter (\<lambda>c. \<not> sp c) s"
  by (induction s arbitrary: cur) auto

lemma split_from_units:
  "\<forall>c \<in> set cur. \<not> sp c \<Longrightarrow>
   \<forall>w \<in> set (split_from sp cur s). w \<noteq> [] \<and> (\<forall>c \<in> set w. \<not> sp c)"
proof (induction s arbitrary: cur)
  case Nil
  then show ?case by simp
next
  case (Cons a s)
  show ?case
  proof (cases "sp a")
    case True
    have "\<forall>w \<in> set (split_from sp [] s). w \<noteq> [] \<and> (\<forall>c \<in> set w. \<not> sp c)"
      by (rule Cons.IH) simp
    then show ?thesis using True Cons.prems by simp
  next
    case False
    have "\<forall>w \<in> set (split_from sp (cur @ [a]) s). w \<noteq> [] \<and> (\<forall>c \<in> set w. \<not> sp c)"
      by (rule Cons.IH) (use False Cons.prems in simp)
    then show ?thesis using False by simp
  qed
qed

lemma py_split_units:
  "concat (py_split U s) = filter (\<lambda>c. \<not> isspace U c) s"
  "w \<in> set (py_split U s) \<Longrightarrow> w \<noteq> [] \<and> (\<forall>c \<in> set w. \<not> isspace U c)"
  using split_from_concat[of "isspace U" "[]" s] split_from_units[of "[]" "isspace U" s]
  by (simp_all add: py_split_def)

text \<open>
  Claim C6. For every input text the normalizer returns exactly the whitespace-delimited
  units of the accent-stripped text, each with its non-alphanumeric characters removed,
  a unit being kept if and only if it is not empty, is longer than one character and its
  lowercased form is no stop word; the units keep their order and duplicates stay.
  The loop of the source computes the filter that the specification describes.
\<close>

theorem normalizer_filter_and_order:
  "extract_keywords U text = normalize_spec U text"
  by (simp add: extract_keywords_def normalize_spec_def keyword_loop_filter)

theorem normalizer_filter_and_order_witness:
  "normalize_spec ascii_unicode (ustr ''the cat, a Cat and  the cat!'')
     = [ustr ''cat'', ustr ''Cat'', ustr ''cat'']"
proof -
  have "extract_keywords ascii_unicode (ustr ''the cat, a Cat and  the cat!'')
     = [ustr ''cat'', ustr ''Cat'', ustr ''cat'']"
    by (simp add: unicode_defs ustr_def)
  then show ?thesis
    using normalizer_filter_and_order [of ascii_unicode "ustr ''the cat, a Cat and  the cat!''"]
    by simp
qed

text \<open>
  Claim C5, as stated: every token that the normalizer returns is lowercase. It fails:
  the query \<open>Tokio\<close> yields the token \<open>Tokio\<close>, whose lowercased form is another string.
\<close>

theorem keywords_lowercase_counterexample:
  "extract_keywords ascii_unicode (ustr ''Tokio'') = [ustr ''Tokio'']
   \<and> lower ascii_unicode (ustr ''Tokio'') \<noteq> ustr ''Tokio''"
  by (simp add: unicode_defs ustr_def)

text \<open>
  Claim C5, amended. Every token that the normalizer returns is a whitespace-delimited
  unit of the accent-stripped text with its non-alphanumeric characters removed, in the
  case the text has it; it is longer than one character and its lowercased form is no
  stop word. Lowercasing serves the stop-word test only.
\<close>

theorem keywords_keep_case:
  "\<forall>t \<in> set (extract_keywords U text).
     (\<exists>word \<in> set (py_split U (strip_accents U text)). t = filter (isalnum U) word)
     \<and> 1 < length t \<and> lower U t \<notin> STOP_WORDS"
  by (auto simp: extract_keywords_def keyword_loop_filter keeps_def)

theorem keywords_keep_case_witness:
  "ustr ''Tokio'' \<in> set (extract_keywords ascii_unicode (ustr ''Mi ciudad: Tokio!''))
   \<and> (\<exists>word \<in> set (py_split ascii_unicode (strip_accents ascii_unicode (ustr ''Mi ciudad: Tokio!''))).
         ustr ''Tokio'' = filter (isalnum ascii_unicode) word)
   \<and> 1 < length (ustr ''Tokio'') \<and> lower ascii_unicode (ustr ''Tokio'') \<notin> STOP_WORDS"
proof -
  have mem: "ustr ''Tokio'' \<in> set (extract_keywords ascii_unicode (ustr ''Mi ciudad: Tokio!''))"
    by (simp add: unicode_defs ustr_def)
  show ?thesis
    using mem keywords_keep_case [of ascii_unicode "ustr ''Mi ciudad: Tokio!''"] by blast
qed

section \<open>Query escaping\<close>

lemma escape_loop_map:
  "escape_loop escaped s
     = escaped @ map (\<lambda>c. if c \<in> set special_chars then [backslash, c] else [c]) s"
  by (induction s arbitrary: escaped) auto

lemma py_join_concat: "sep = [] \<Longrightarrow> py_join sep xs = concat xs"
  by (induction sep xs rule: py_join.induct) auto

text \<open>The loop of the source escapes the characters of its own list.\<close>

lemma escape_query_concat: "escape_query s = escape_reserved (set special_chars) s"
  by (simp add: escape_query_def escape_reserved_def py_join_concat escape_loop_map)


text \<open>
  On a text with punctuation the list of the source is not the engine's: the comma and
  the semicolon pass unescaped. No keyword holds either, as the next theorem shows.
\<close>

lemma escape_query_comma_semicolon:
  "escape_query (ustr ''a,b;c'') = ustr ''a,b;c''"
  "escape_reserved (set redisearch_reserved) (ustr ''a,b;c'') = [97, 92, 44, 98, 92, 59, 99]"
  by (simp_all add: escape_query_concat escape_reserved_def special_chars_def
      redisearch_reserved_def ustr_def backslash_def)



section \<open>The fact store\<close>

lemma get_all_memories_not_ResponseError: "get_all_memories ft r uid \<noteq> Inl ResponseError"
  by (auto simp: get_all_memories_def split: sum.splits redis_error.splits)

text \<open>
  Claim C3. When the query yields no keyword, as the empty and the blank query do,
  \<open>search_memories\<close> returns what \<open>get_all_memories\<close> returns, cut to \<open>max_results\<close>
  by the slice \<open>[:max_results]\<close>, which for a cap that is not negative keeps the first
  \<open>max_results\<close> contents; it does not return the empty list in their place.
\<close>

theorem search_without_keywords_lists_all:
  "extract_keywords U query = [] \<Longrightarrow>
     search_memories U ft r uid query n =
       (case get_all_memories ft r uid of
          Inl e \<Rightarrow> Inl e
        | Inr memories \<Rightarrow> Inr (py_slice_to memories n))
     \<and> (0 \<le> n \<longrightarrow> search_memories U ft r uid query n =
            (case get_all_memories ft r uid of
               Inl e \<Rightarrow> Inl e
             | Inr memories \<Rightarrow> Inr (take (nat n) memories)))"
  using get_all_memories_not_ResponseError[of ft r uid]
  by (auto simp: search_memories_def except_ResponseError_def py_slice_to_def
      split: sum.splits redis_error.splits)

theorem search_without_keywords_lists_all_witness:
  "extract_keywords ascii_unicode (ustr ''   '') = []
   \<and> (0::int) \<le> 1
   \<and> get_all_memories owner_search two_owners (ustr ''u1'')
       = Inr [ustr ''Likes tea'', ustr ''Has a dog'']
   \<and> search_memories ascii_unicode owner_search two_owners (ustr ''u1'') (ustr ''   '') 1
       = Inr [ustr ''Likes tea'']"
proof -
  have k: "extract_keywords ascii_unicode (ustr ''   '') = []"
    by (simp add: unicode_defs ustr_def)
  have g: "get_all_memories owner_search two_owners (ustr ''u1'')
       = Inr [ustr ''Likes tea'', ustr ''Has a dog'']"
    by (simp add: store_defs string_defs)
  show ?thesis
    using k g search_without_keywords_lists_all [OF k, of owner_search two_owners "ustr ''u1''" 1]
    by (simp add: py_slice_to_def)
qed

text \<open>
  Claim C10. \<open>search_memories\<close> never raises \<open>ResponseError\<close>: when the engine
  rejects the composed query, or the query that lists the owner's facts, the result is
  the empty list. A \<open>ConnectionError\<close> of the engine is not caught: it reaches the
  caller, as an error and not as an empty result.
\<close>

theorem search_error_degradation:
  "search_memories U ft r uid query n \<noteq> Inl ResponseError
   \<and> (extract_keywords U query \<noteq> []
        \<and> ft r (full_query uid (extract_keywords U query)) 0 n = Inl ResponseError
      \<longrightarrow> search_memories U ft r uid query n = Inr [])
   \<and> (extract_keywords U query = [] \<and> ft r (owner_query uid) 0 100 = Inl ResponseError
      \<longrightarrow> search_memories U ft r uid query n = Inr [])
   \<and> (extract_keywords U query \<noteq> []
        \<and> ft r (full_query uid (extract_keywords U query)) 0 n = Inl ConnectionError
      \<longrightarrow> search_memories U ft r uid query n = Inl ConnectionError)
   \<and> (extract_keywords U query = [] \<and> ft r (owner_query uid) 0 100 = Inl ConnectionError
      \<longrightarrow> search_memories U ft r uid query n = Inl ConnectionError)"
  by (auto simp: search_memories_def except_ResponseError_def get_all_memories_def
      py_slice_to_def Let_def split: sum.splits redis_error.splits)

theorem search_error_degradation_witness:
  "extract_keywords ascii_unicode (ustr ''tea'') \<noteq> []
   \<and> extract_keywords ascii_unicode (ustr '' '') = []
   \<and> rejecting_search two_owners (full_query (ustr ''u1'') (extract_keywords ascii_unicode (ustr ''tea''))) 0 5
       = Inl ResponseError
   \<and> search_memories ascii_unicode rejecting_search two_owners (ustr ''u1'') (ustr ''tea'') 5 = Inr []
   \<and> rejecting_search two_owners (owner_query (ustr ''u1'')) 0 100 = Inl ResponseError
   \<and> search_memories ascii_unicode rejecting_search two_owners (ustr ''u1'') (ustr '' '') 5 = Inr []
   \<and> unreachable_search two_owners (full_query (ustr ''u1'') (extract_keywords ascii_unicode (ustr ''tea''))) 0 5
       = Inl ConnectionError
   \<and> search_memories ascii_unicode unreachable_search two_owners (ustr ''u1'') (ustr ''tea'') 5
       = Inl ConnectionError
   \<and> unreachable_search two_owners (owner_query (ustr ''u1'')) 0 100 = Inl ConnectionError
   \<and> search_memories ascii_unicode unreachable_search two_owners (ustr ''u1'') (ustr '' '') 5
       = Inl ConnectionError"
proof -
  have k1: "extract_keywords ascii_unicode (ustr ''tea'') \<noteq> []"
    by (simp add: unicode_defs ustr_def)
  have k2: "extract_keywords ascii_unicode (ustr '' '') = []"
    by (simp add: unicode_defs ustr_def)
  show ?thesis
    using k1 k2
      search_error_degradation [of ascii_unicode rejecting_search two_owners "ustr ''u1''" "ustr ''tea''" 5]
      search_error_degradation [of ascii_unicode rejecting_search two_owners "ustr ''u1''" "ustr '' ''" 5]
      search_error_degradation [of ascii_unicode unreachable_search two_owners "ustr ''u1''" "ustr ''tea''" 5]
      search_error_degradation [of ascii_unicode unreachable_search two_owners "ustr ''u1''" "ustr '' ''" 5]
    by (simp add: rejecting_search_def unreachable_search_def)
qed

lemma hget_Some: "distinct (map fst r) \<Longrightarrow> hget_user_id r key = Some uid \<longleftrightarrow> (\<exists>m. (key, m) \<in> set r \<and> user_id m = uid)"
  by (auto simp: hget_user_id_def)

lemma distinct_delete: "distinct (map fst r) \<Longrightarrow> distinct (map fst (delete r key))"
  by (simp add: delete_def distinct_map_filter)

lemma filter_key_single:
  "distinct (map fst r) \<Longrightarrow> (key, m) \<in> set r \<Longrightarrow> filter (\<lambda>(k, m). k = key) r = [(key, m)]"
proof (induction r)
  case Nil
  then show ?case by simp
next
  case (Cons x r)
  then show ?case
    by (cases x) (auto simp: rev_image_eqI filter_empty_conv)
qed

lemma length_filter_split:
  "length (filter P r) = length (filter (\<lambda>x. P x \<and> Q x) r) + length (filter (\<lambda>x. P x \<and> \<not> Q x) r)"
  by (induction r) auto

lemma clear_loop_eq:
  "distinct (map fst r) \<Longrightarrow>
   clear_loop uid r cnt keys =
     (cnt + length (filter (\<lambda>(k, m). k \<in> set keys \<and> user_id m = uid) r),
      filter (\<lambda>(k, m). \<not> (k \<in> set keys \<and> user_id m = uid)) r)"
proof (induction keys arbitrary: r cnt)
  case Nil
  then show ?case by simp
next
  case (Cons key keys)
  show ?case
  proof (cases "hget_user_id r key = Some uid")
    case True
    then obtain m where m: "(key, m) \<in> set r" "user_id m = uid"
      using Cons.prems by (auto simp: hget_Some)
    have uniq: "\<And>m'. (key, m') \<in> set r \<Longrightarrow> m' = m"
      using Cons.prems m(1) by (meson eq_key_imp_eq_value)
    have d: "distinct (map fst (delete r key))" using Cons.prems by (rule distinct_delete)
    have rest: "filter (\<lambda>(k, m). \<not> (k \<in> set keys \<and> user_id m = uid)) (delete r key)
        = filter (\<lambda>(k, m). \<not> (k \<in> set (key # keys) \<and> user_id m = uid)) r"
      unfolding delete_def filter_filter
      by (rule filter_cong) (use uniq m(2) in auto)
    have "\<And>x. x \<in> set r \<Longrightarrow>
        ((case x of (k, m) \<Rightarrow> k \<in> set (key # keys) \<and> user_id m = uid) \<and> fst x = key)
        = (case x of (k, m) \<Rightarrow> k = key)"
    proof -
      fix x assume x: "x \<in> set r"
      obtain k m' where km: "x = (k, m')" by (cases x)
      show "((case x of (k, m) \<Rightarrow> k \<in> set (key # keys) \<and> user_id m = uid) \<and> fst x = key)
        = (case x of (k, m) \<Rightarrow> k = key)"
      proof (cases "k = key")
        case True
        then have "m' = m" using uniq x km by simp
        then show ?thesis using True km m(2) by simp
      next
        case False
        then show ?thesis using km by simp
      qed
    qed
    then have "filter (\<lambda>x. (case x of (k, m) \<Rightarrow> k \<in> set (key # keys) \<and> user_id m = uid) \<and> fst x = key) r
        = filter (\<lambda>(k, m). k = key) r"
      by (rule filter_cong[OF refl])
    then have l1: "length (filter (\<lambda>x. (case x of (k, m) \<Rightarrow> k \<in> set (key # keys) \<and> user_id m = uid) \<and> fst x = key) r) = 1"
      using filter_key_single[OF Cons.prems m(1)] by simp
    have "filter (\<lambda>x. (case x of (k, m) \<Rightarrow> k \<in> set (key # keys) \<and> user_id m = uid) \<and> fst x \<noteq> key) r
        = filter (\<lambda>(k, m). k \<in> set keys \<and> user_id m = uid) (delete r key)"
      unfolding delete_def filter_filter
      by (rule filter_cong[OF refl]) (simp add: case_prod_beta, blast)
    then have cnt: "length (filter (\<lambda>(k, m). k \<in> set (key # keys) \<and> user_id m = uid) r)
        = 1 + length (filter (\<lambda>(k, m). k \<in> set keys \<and> user_id m = uid) (delete r key))"
      using l1 length_filter_split[of "\<lambda>(k, m). k \<in> set (key # keys) \<and> user_id m = uid" r "\<lambda>x. fst x = key"]
      by simp
    show ?thesis
      using True Cons.IH[OF d, of "cnt + 1"] rest cnt by simp
  next
    case False
    then have no: "\<And>m'. (key, m') \<in> set r \<Longrightarrow> user_id m' \<noteq> uid"
      using Cons.prems by (auto simp: hget_Some)
    have a: "filter (\<lambda>(k, m). \<not> (k \<in> set keys \<and> user_id m = uid)) r
        = filter (\<lambda>(k, m). \<not> (k \<in> set (key # keys) \<and> user_id m = uid)) r"
      by (rule filter_cong) (use no in auto)
    have b: "filter (\<lambda>(k, m). k \<in> set keys \<and> user_id m = uid) r
        = filter (\<lambda>(k, m). k \<in> set (key # keys) \<and> user_id m = uid) r"
      by (rule filter_cong) (use no in auto)
    show ?thesis
      using False Cons.IH[OF Cons.prems, of cnt] a b by simp
  qed
qed

text \<open>
  Claim C9. When the keys of the keyspace are distinct, \<open>scanned\<close> is a scan of it and
  the connection holds, \<open>clear_memories\<close> for the owner \<open>u1\<close> deletes every fact of
  \<open>u1\<close>, returns how many facts of \<open>u1\<close> there were, and leaves the facts of every
  other owner as they were.
\<close>

theorem clear_is_owner_scoped:
  assumes "distinct (map fst r)" and "scan_iter r scanned"
    and "ft r (owner_query u1) 0 100 \<noteq> Inl ConnectionError"
  shows "clear_memories ft r u1 scanned =
           Inr (length (facts_of r u1), filter (\<lambda>(k, m). \<not> (has_prefix k \<and> user_id m = u1)) r)
         \<and> facts_of (filter (\<lambda>(k, m). \<not> (has_prefix k \<and> user_id m = u1)) r) u1 = []
         \<and> (\<forall>u2. u2 \<noteq> u1 \<longrightarrow>
              facts_of (filter (\<lambda>(k, m). \<not> (has_prefix k \<and> user_id m = u1)) r) u2 = facts_of r u2)"
proof -
  have "\<exists>ms. get_all_memories ft r u1 = Inr ms"
  proof (cases "ft r (owner_query u1) 0 100")
    case (Inl e)
    then show ?thesis using assms(3) by (cases e) (simp_all add: get_all_memories_def)
  next
    case (Inr docs)
    then show ?thesis by (simp add: get_all_memories_def)
  qed
  then obtain ms where ms: "get_all_memories ft r u1 = Inr ms" ..
  have s: "\<And>k m. (k, m) \<in> set r \<Longrightarrow> k \<in> set scanned \<longleftrightarrow> has_prefix k"
    using assms(2) by (force simp: scan_iter_def)
  have a: "filter (\<lambda>(k, m). \<not> (k \<in> set scanned \<and> user_id m = u1)) r
         = filter (\<lambda>(k, m). \<not> (has_prefix k \<and> user_id m = u1)) r"
    by (rule filter_cong) (use s in auto)
  have b: "filter (\<lambda>(k, m). k \<in> set scanned \<and> user_id m = u1) r = facts_of r u1"
    unfolding facts_of_def by (rule filter_cong) (use s in auto)
  have 1: "clear_memories ft r u1 scanned =
           Inr (length (facts_of r u1), filter (\<lambda>(k, m). \<not> (has_prefix k \<and> user_id m = u1)) r)"
    using ms clear_loop_eq[OF assms(1), of u1 0 scanned] a b by (simp add: clear_memories_def)
  have 2: "facts_of (filter (\<lambda>(k, m). \<not> (has_prefix k \<and> user_id m = u1)) r) u1 = []"
    by (auto simp: facts_of_def filter_empty_conv)
  have 3: "\<forall>u2. u2 \<noteq> u1 \<longrightarrow>
              facts_of (filter (\<lambda>(k, m). \<not> (has_prefix k \<and> user_id m = u1)) r) u2 = facts_of r u2"
    unfolding facts_of_def filter_filter
    by (auto intro!: filter_cong)
  show ?thesis using 1 2 3 by blast
qed


theorem clear_is_owner_scoped_witness:
  "distinct (map fst two_owners)
   \<and> scan_iter two_owners
        [PREFIX @ ustr ''0123456789ad'', PREFIX @ ustr ''0123456789ab'',
         PREFIX @ ustr ''0123456789ac'', PREFIX @ ustr ''0123456789ab'']
   \<and> owner_search two_owners (owner_query (ustr ''u1'')) 0 100 \<noteq> Inl ConnectionError
   \<and> clear_memories owner_search two_owners (ustr ''u1'')
        [PREFIX @ ustr ''0123456789ad'', PREFIX @ ustr ''0123456789ab'',
         PREFIX @ ustr ''0123456789ac'', PREFIX @ ustr ''0123456789ab'']
       = Inr (2, [(PREFIX @ ustr ''0123456789ac'',
                   \<lparr> content = ustr ''Lives in Lima'', user_id = ustr ''u2'', timestamp = ustr ''2'' \<rparr>)])
   \<and> facts_of two_owners (ustr ''u2'')
       = [(PREFIX @ ustr ''0123456789ac'',
           \<lparr> content = ustr ''Lives in Lima'', user_id = ustr ''u2'', timestamp = ustr ''2'' \<rparr>)]"
proof -
  have d: "distinct (map fst two_owners)"
    by (simp add: two_owners_def PREFIX_def ustr_def)
  have s: "scan_iter two_owners
        [PREFIX @ ustr ''0123456789ad'', PREFIX @ ustr ''0123456789ab'',
         PREFIX @ ustr ''0123456789ac'', PREFIX @ ustr ''0123456789ab'']"
    by (simp add: scan_iter_def two_owners_def has_prefix_def PREFIX_def ustr_def) blast
  have c: "owner_search two_owners (owner_query (ustr ''u1'')) 0 100 \<noteq> Inl ConnectionError"
    by (simp add: owner_search_def)
  show ?thesis
    using d s c
      clear_is_owner_scoped [of two_owners
        "[PREFIX @ ustr ''0123456789ad'', PREFIX @ ustr ''0123456789ab'',
          PREFIX @ ustr ''0123456789ac'', PREFIX @ ustr ''0123456789ab'']"
        owner_search "ustr ''u1''"]
    by (simp add: facts_of_def two_owners_def has_prefix_def PREFIX_def ustr_def)
qed

section \<open>Hybrid search\<close>

lemma select_rows_map:
  "(\<And>j. j \<in> set js \<Longrightarrow> select_row P k j = Inr (g j)) \<Longrightarrow> select_rows P k js = Inr (map g js)"
  by (induction js) auto

lemma filter_key_distinct:
  "distinct (map fst b) \<Longrightarrow>
   filter (\<lambda>kw. fst kw = i) b = (case map_of b i of None \<Rightarrow> [] | Some r \<Rightarrow> [(i, r)])"
proof (induction b)
  case Nil
  then show ?case by simp
next
  case (Cons x b)
  obtain j r where x: "x = (j, r)" by (cases x)
  show ?case
  proof (cases "j = i")
    case True
    then have "i \<notin> fst ` set b" using Cons.prems x by auto
    then have "filter (\<lambda>kw. fst kw = i) b = []"
      by (auto simp: filter_empty_conv)
    then show ?thesis using True x by simp
  next
    case False
    then show ?thesis using Cons x by simp
  qed
qed

lemma joined_ids:
  "distinct (map fst b) \<Longrightarrow> map coalesce_id (full_outer_join a b) = first_encountered a b"
proof -
  assume d: "distinct (map fst b)"
  have 1: "map coalesce_id (concat (map (\<lambda>s. case filter (\<lambda>kw. fst kw = fst s) b of
                          [] \<Rightarrow> [LeftOnly s]
                        | ms \<Rightarrow> map (Both s) ms) a')) = map fst a'" for a'
    by (induction a') (auto simp: filter_key_distinct[OF d] split: option.splits)
  have 2: "map coalesce_id (map RightOnly (filter (\<lambda>kw. fst kw \<notin> fst ` set a) b))
      = filter (\<lambda>i. i \<notin> fst ` set a) (map fst b)"
    by (induction b) auto
  show ?thesis
    unfolding full_outer_join_def first_encountered_def using 1 2 by simp
qed

lemma joined_row_score:
  assumes da: "distinct (map fst a)" and db: "distinct (map fst b)"
    and ok: "\<And>i r. (i, r) \<in> set a \<union> set b \<Longrightarrow> \<exists>q. reciprocal P k (Some r) = Inr q"
    and j: "j \<in> set (full_outer_join a b)"
  shows "select_row P k j = Inr (coalesce_id j, fused_score P k a b (coalesce_id j))"
proof -
  from j consider
      (left) s where "s \<in> set a" "map_of b (fst s) = None" "j = LeftOnly s"
    | (both) s r where "s \<in> set a" "map_of b (fst s) = Some r" "j = Both s (fst s, r)"
    | (right) kw where "kw \<in> set b" "fst kw \<notin> fst ` set a" "j = RightOnly kw"
    unfolding full_outer_join_def
    by (auto simp: filter_key_distinct[OF db] split: option.splits)
  then show ?thesis
  proof cases
    case left
    obtain i r where s: "s = (i, r)" by (cases s)
    then have ma: "map_of a i = Some r" using da left(1) by simp
    obtain q where "reciprocal P k (Some r) = Inr q" using ok[of i r] left(1) s by auto
    then show ?thesis using left s ma
      by (simp add: select_row_def fused_score_def)
  next
    case both
    obtain i ra where s: "s = (i, ra)" by (cases s)
    then have ma: "map_of a i = Some ra" using da both(1) by simp
    have "(i, r) \<in> set b" using both(2) s by (auto dest: map_of_SomeD)
    then obtain qb where qb: "reciprocal P k (Some r) = Inr qb" using ok[of i r] by auto
    obtain qa where qa: "reciprocal P k (Some ra) = Inr qa" using ok[of i ra] both(1) s by auto
    show ?thesis using both s ma qa qb
      by (simp add: select_row_def fused_score_def)
  next
    case right
    obtain i r where kw: "kw = (i, r)" by (cases kw)
    then have mb: "map_of b i = Some r" using db right(1) by simp
    have ma: "map_of a i = None" using right(2) kw by (simp add: map_of_eq_None_iff)
    obtain q where "reciprocal P k (Some r) = Inr q" using ok[of i r] right(1) kw by auto
    then show ?thesis using right kw ma mb
      by (simp add: select_row_def fused_score_def)
  qed
qed

lemma select_rows_fused:
  assumes da: "distinct (map fst a)" and db: "distinct (map fst b)"
    and ok: "\<forall>(i, r) \<in> set a \<union> set b. \<exists>q. reciprocal P k (Some r) = Inr q"
  shows "select_rows P k (full_outer_join a b) = Inr (fused P k a b)"
proof -
  have ok': "\<And>i r. (i, r) \<in> set a \<union> set b \<Longrightarrow> \<exists>q. reciprocal P k (Some r) = Inr q"
    using ok by blast
  have "select_rows P k (full_outer_join a b)
      = Inr (map (\<lambda>j. (coalesce_id j, fused_score P k a b (coalesce_id j))) (full_outer_join a b))"
    by (rule select_rows_map) (rule joined_row_score[OF da db ok'])
  also have "map (\<lambda>j. (coalesce_id j, fused_score P k a b (coalesce_id j))) (full_outer_join a b)
      = map (\<lambda>i. (i, fused_score P k a b i)) (map coalesce_id (full_outer_join a b))"
    by simp
  finally show ?thesis by (simp add: joined_ids[OF db] fused_def)
qed

lemma first_encountered_set: "set (first_encountered a b) = fst ` set a \<union> fst ` set b"
  by (auto simp: first_encountered_def)

lemma first_encountered_distinct:
  "distinct (map fst a) \<Longrightarrow> distinct (map fst b) \<Longrightarrow> distinct (first_encountered a b)"
  by (auto simp: first_encountered_def)

lemma order_by_mset:
  "order_by_score_desc_limit rows n out \<Longrightarrow> mset out \<subseteq># mset rows"
proof (induction rows n out rule: order_by_score_desc_limit.induct)
  case (3 rows n row out)
  then have "mset out \<subseteq># mset (remove1 row rows)" by simp
  then have "mset out \<subseteq># mset rows - {#row#}" by simp
  moreover have "row \<in># mset rows" using 3 by simp
  ultimately show ?case
    by (metis insert_DiffM mset.simps(2) mset_subset_eq_add_mset_cancel)
qed simp_all

lemma order_by_length:
  "order_by_score_desc_limit rows n out \<Longrightarrow> length out = min n (length rows)"
proof (induction rows n out rule: order_by_score_desc_limit.induct)
  case (3 rows n row out)
  then have "length out = min n (length (remove1 row rows))" by simp
  moreover have "length (remove1 row rows) = length rows - 1"
    using 3 by (simp add: length_remove1)
  moreover have "rows \<noteq> []" using 3 by auto
  ultimately show ?case by (cases rows) auto
qed simp_all

lemma order_by_descending:
  "order_by_score_desc_limit rows n out \<Longrightarrow> descending out"
proof (induction rows n out rule: order_by_score_desc_limit.induct)
  case (3 rows n row out)
  have ob: "order_by_score_desc_limit (remove1 row rows) n out" using "3.prems" by simp
  have mx: "\<forall>other \<in> set rows. snd other \<le> snd row" using "3.prems" by simp
  have d: "descending out" using "3.IH" ob by simp
  have "mset out \<subseteq># mset rows"
    using order_by_mset[OF "3.prems"] by (metis mset.simps(2) mset_subset_eq_insertD subset_mset.less_imp_le)
  then have "set_mset (mset out) \<subseteq> set_mset (mset rows)" by (rule set_mset_mono)
  then have "set out \<subseteq> set rows" by simp
  then have "\<forall>y \<in> set out. snd y \<le> snd row" using mx by auto
  then show ?case using d by (simp add: descending_def)
qed (simp_all add: descending_def)

lemma order_by_rest:
  "order_by_score_desc_limit rows n out \<Longrightarrow>
   \<forall>x \<in> set out. \<forall>y \<in># mset rows - mset out. snd y \<le> snd x"
proof (induction rows n out rule: order_by_score_desc_limit.induct)
  case (3 rows n row out)
  have ob: "order_by_score_desc_limit (remove1 row rows) n out" using "3.prems" by simp
  have mx: "\<forall>other \<in> set rows. snd other \<le> snd row" using "3.prems" by simp
  have ih: "\<forall>x \<in> set out. \<forall>y \<in># mset (remove1 row rows) - mset out. snd y \<le> snd x"
    using "3.IH" ob by simp
  have eq: "mset rows - mset (row # out) = mset (remove1 row rows) - mset out"
    by simp
  have "\<forall>y \<in># mset rows - mset (row # out). snd y \<le> snd row"
  proof
    fix y assume "y \<in># mset rows - mset (row # out)"
    then have "y \<in># mset rows" by (rule in_diffD)
    then show "snd y \<le> snd row" using mx by simp
  qed
  then show ?case using ih eq by auto
qed simp_all

lemma order_by_sorted_exists:
  "mset s = mset rows \<Longrightarrow> descending s \<Longrightarrow> order_by_score_desc_limit rows n (take n s)"
proof (induction s arbitrary: rows n)
  case Nil
  then show ?case by (cases n) simp_all
next
  case (Cons x s)
  show ?case
  proof (cases n)
    case 0
    then show ?thesis by simp
  next
    case (Suc m)
    have x: "x \<in> set rows" using Cons.prems(1) by (metis list.set_intros(1) mset_eq_setD)
    have "set rows = set (x # s)" using Cons.prems(1) by (metis mset_eq_setD)
    then have mx: "\<forall>other \<in> set rows. snd other \<le> snd x"
      using Cons.prems(2) by (auto simp: descending_def)
    have "mset s = mset (remove1 x rows)" using Cons.prems(1) by (metis add_mset_remove_trivial mset.simps(2) mset_remove1)
    moreover have "descending s" using Cons.prems(2) by (simp add: descending_def)
    ultimately have "order_by_score_desc_limit (remove1 x rows) m (take m s)"
      by (rule Cons.IH)
    then show ?thesis using Suc x mx by simp
  qed
qed

lemma descending_sort_key: "descending (sort_key (\<lambda>row. - snd row) rows)"
proof -
  have "sorted (map (\<lambda>row. - snd row) (sort_key (\<lambda>row. - snd row) rows))"
    by (rule sorted_sort_key)
  then show ?thesis
    by (simp add: descending_def sorted_map sorted_wrt_iff_nth_less)
qed


lemma fused_length:
  "distinct (map fst a) \<Longrightarrow> distinct (map fst b) \<Longrightarrow>
   length (fused P k a b) = card (fst ` set a \<union> fst ` set b)"
  using first_encountered_distinct[of a b] first_encountered_set[of a b]
  by (simp add: fused_def distinct_card[symmetric])

lemma order_by_exists:
  "order_by_score_desc_limit rows n (take n (sort_key (\<lambda>row. - snd row) rows))"
  by (rule order_by_sorted_exists) (simp_all add: descending_sort_key)

subsection \<open>The scores of PostgreSQL's arithmetic\<close>

lemma postgres_numeric_reciprocal:
  "0 < k \<Longrightarrow> 1 \<le> r \<Longrightarrow> k + r < 10000 \<Longrightarrow>
   reciprocal postgres_numeric k (Some r) = Inr (numeric_quotient 20 (k + r))"
  by (simp add: postgres_numeric_def base10000_digits_def)

lemma numeric_quotient_error:
  assumes "0 < n"
  shows "\<bar>numeric_quotient s n - 1 / of_int n\<bar> \<le> 1 / (2 * 10 ^ s)"
proof -
  define N :: int where "N = 10 ^ s"
  define q where "q = (2 * N + n) div (2 * n)"
  define m where "m = (2 * N + n) mod (2 * n)"
  have N: "0 < N" by (simp add: N_def)
  have m: "0 \<le> m" "m < 2 * n" using assms by (simp_all add: m_def)
  define z where "z = n * q - N"
  have "2 * n * q + m = 2 * N + n" by (simp add: q_def m_def)
  then have "2 * z = n - m" by (simp add: z_def algebra_simps)
  then have b: "2 * \<bar>z\<bar> \<le> n" using m by arith
  have nq: "numeric_quotient s n = of_int q / of_int N"
    using assms by (simp add: numeric_quotient_def q_def N_def)
  have "of_int q / of_int N - 1 / (of_int n :: rat) = of_int (n * q - N) / of_int (n * N)"
    using assms N by (simp add: field_simps)
  then have "\<bar>numeric_quotient s n - 1 / of_int n\<bar> = of_int \<bar>n * q - N\<bar> / (of_int (n * N) :: rat)"
    using assms N by (simp add: nq abs_divide mult_pos_pos del: of_int_mult of_int_diff)
  also have "\<dots> \<le> 1 / (2 * of_int N)"
  proof -
    have "2 * \<bar>n * q - N\<bar> \<le> n" using b by (simp add: z_def)
    then have "(of_int (2 * \<bar>n * q - N\<bar>) :: rat) \<le> of_int n" by (simp only: of_int_le_iff)
    then have "(of_int \<bar>n * q - N\<bar> :: rat) * (2 * of_int N) \<le> of_int (n * N)"
      using N by (simp add: algebra_simps mult_right_mono)
    then show ?thesis using assms N by (simp add: field_simps)
  qed
  finally show ?thesis by (simp add: N_def)
qed

lemma fused_score_rounded:
  assumes "0 < k" and "\<forall>(i, rank) \<in> set a \<union> set b. 1 \<le> rank \<and> k + rank < 10000"
  shows "fused_score postgres_numeric k a b i = rounded_score k a b i"
proof -
  have t: "(case reciprocal postgres_numeric k (map_of l i) of Inl e \<Rightarrow> 0 | Inr x \<Rightarrow> x)
      = (case map_of l i of None \<Rightarrow> 0 | Some rank \<Rightarrow> numeric_quotient 20 (k + rank))"
    if "set l \<subseteq> set a \<union> set b" for l
  proof (cases "map_of l i")
    case None
    then show ?thesis by simp
  next
    case (Some r)
    then have "(i, r) \<in> set a \<union> set b" using that by (auto dest: map_of_SomeD)
    then have "1 \<le> r \<and> k + r < 10000" using assms(2) by blast
    then have "reciprocal postgres_numeric k (Some r) = Inr (numeric_quotient 20 (k + r))"
      using assms(1) by (simp add: postgres_numeric_reciprocal del: reciprocal.simps)
    then show ?thesis using Some by (simp del: reciprocal.simps)
  qed
  show ?thesis
    using t[OF Un_upper1] t[OF Un_upper2] by (simp add: fused_score_def rounded_score_def)
qed

lemma rounded_score_error:
  assumes "0 < k" and "\<forall>(i, rank) \<in> set a \<union> set b. 1 \<le> rank \<and> k + rank < 10000"
  shows "\<bar>rounded_score k a b i - rrf_score k a b i\<bar> \<le> 1 / 10 ^ 20"
proof -
  have t: "\<bar>(case map_of l i of None \<Rightarrow> 0 | Some rank \<Rightarrow> numeric_quotient 20 (k + rank))
       - (case map_of l i of None \<Rightarrow> 0 | Some rank \<Rightarrow> 1 / of_int (k + rank))\<bar> \<le> 1 / (2 * 10 ^ 20)"
    if "set l \<subseteq> set a \<union> set b" for l
  proof (cases "map_of l i")
    case None
    then show ?thesis by simp
  next
    case (Some r)
    then have "(i, r) \<in> set a \<union> set b" using that by (auto dest: map_of_SomeD)
    then have "1 \<le> r" using assms(2) by blast
    then have "0 < k + r" using assms(1) by simp
    then show ?thesis using Some numeric_quotient_error[of "k + r" 20] by simp
  qed
  have "\<bar>rounded_score k a b i - rrf_score k a b i\<bar>
      \<le> 1 / (2 * 10 ^ 20) + 1 / (2 * 10 ^ 20)"
    using t[OF Un_upper1] t[OF Un_upper2] unfolding rounded_score_def rrf_score_def by arith
  then show ?thesis by simp
qed

text \<open>
  Claim C1, as stated: the fused score of an id is \<open>1/(k + rank)\<close> for each list that
  holds it. It fails by the rounding of the division. For the lists \<open>[(A,1),(B,2)]\<close> and
  \<open>[(B,1),(C,2)]\<close> with \<open>k = 60\<close> (the ids written 1, 2, 3) the statement yields
  \<open>0.01639344262295081967\<close> for \<open>A\<close>, which is not \<open>1/61\<close>.
\<close>

theorem rrf_exact_score_counterexample:
  "select_rows postgres_numeric 60 (full_outer_join [(1, 1), (2, 2)] [(2, 1), (3, 2)])
     = Inr [(1, 1639344262295081967 / 100000000000000000000),
            (2, 3252247488101533580 / 100000000000000000000),
            (3, 1612903225806451613 / 100000000000000000000)]
   \<and> rrf_score 60 [(1, 1), (2, 2)] [(2, 1), (3, 2)] 1 = 1 / 61
   \<and> (1639344262295081967 / 100000000000000000000 :: rat) \<noteq> 1 / 61"
  by (simp add: full_outer_join_def select_row_def postgres_numeric_def base10000_digits_def
      numeric_quotient_def rrf_score_def)

text \<open>
  Claim C1, amended. For rank-ordered lists without repeated ids, ranks from 1 and a
  positive \<open>k\<close> with \<open>k + rank\<close> below 10000, the statement computes one row for each id
  of either list, and the score of the id is the quotient \<open>1/(k + rank)\<close> rounded at 20
  decimal places for its rank in the first list, if it is there, plus the same for its
  rank in the second, if it is there; every row that the statement returns carries that
  score, which is within \<open>10\<^sup>-\<^sup>2\<^sup>0\<close> of the sum of the exact reciprocals. For the
  lists \<open>[(A,1),(B,2)]\<close> and \<open>[(B,1),(C,2)]\<close> with \<open>k = 60\<close> the score of \<open>B\<close> is higher
  than those of \<open>A\<close> and \<open>C\<close>.
\<close>

theorem rrf_scoring:
  assumes "0 < k" and "distinct (map fst list_a)" and "distinct (map fst list_b)"
    and "\<forall>(i, rank) \<in> set list_a \<union> set list_b. 1 \<le> rank \<and> k + rank < 10000"
  shows "select_rows postgres_numeric k (full_outer_join list_a list_b)
           = Inr (map (\<lambda>i. (i, rounded_score k list_a list_b i)) (first_encountered list_a list_b))
         \<and> set (first_encountered list_a list_b) = fst ` set list_a \<union> fst ` set list_b
         \<and> distinct (first_encountered list_a list_b)
         \<and> (\<forall>limit out. HYBRID_SEARCH_SQL postgres_numeric list_a list_b k limit (Inr out) \<longrightarrow>
               (\<forall>(i, score) \<in> set out.
                   i \<in> fst ` set list_a \<union> fst ` set list_b \<and> score = rounded_score k list_a list_b i))
         \<and> (\<forall>i. \<bar>rounded_score k list_a list_b i - rrf_score k list_a list_b i\<bar> \<le> 1 / 10 ^ 20)
         \<and> rounded_score 60 [(1, 1), (2, 2)] [(2, 1), (3, 2)] 1
             < rounded_score 60 [(1, 1), (2, 2)] [(2, 1), (3, 2)] 2
         \<and> rounded_score 60 [(1, 1), (2, 2)] [(2, 1), (3, 2)] 3
             < rounded_score 60 [(1, 1), (2, 2)] [(2, 1), (3, 2)] 2"
proof -
  have ok: "\<forall>(i, r) \<in> set list_a \<union> set list_b. \<exists>q. reciprocal postgres_numeric k (Some r) = Inr q"
  proof (intro ballI, clarify)
    fix i r
    assume "(i, r) \<in> set list_a \<union> set list_b"
    then have "1 \<le> r \<and> k + r < 10000" using assms(4) by blast
    then have "reciprocal postgres_numeric k (Some r) = Inr (numeric_quotient 20 (k + r))"
      using assms(1) by (simp add: postgres_numeric_reciprocal del: reciprocal.simps)
    then show "\<exists>q. reciprocal postgres_numeric k (Some r) = Inr q" by blast
  qed
  have fr: "fused postgres_numeric k list_a list_b
      = map (\<lambda>i. (i, rounded_score k list_a list_b i)) (first_encountered list_a list_b)"
    by (simp add: fused_def fused_score_rounded[OF assms(1) assms(4)])
  have rows: "select_rows postgres_numeric k (full_outer_join list_a list_b)
      = Inr (map (\<lambda>i. (i, rounded_score k list_a list_b i)) (first_encountered list_a list_b))"
    using select_rows_fused[OF assms(2) assms(3) ok] fr by simp
  have res: "\<forall>limit out. HYBRID_SEARCH_SQL postgres_numeric list_a list_b k limit (Inr out) \<longrightarrow>
               (\<forall>(i, score) \<in> set out.
                   i \<in> fst ` set list_a \<union> fst ` set list_b \<and> score = rounded_score k list_a list_b i)"
  proof (intro allI impI)
    fix limit out
    assume h: "HYBRID_SEARCH_SQL postgres_numeric list_a list_b k limit (Inr out)"
    then have "order_by_score_desc_limit
        (map (\<lambda>i. (i, rounded_score k list_a list_b i)) (first_encountered list_a list_b))
        (nat limit) out"
      using rows by (simp add: HYBRID_SEARCH_SQL_def split: if_splits)
    then have "mset out \<subseteq>#
        mset (map (\<lambda>i. (i, rounded_score k list_a list_b i)) (first_encountered list_a list_b))"
      by (rule order_by_mset)
    then have "set_mset (mset out) \<subseteq> set_mset
        (mset (map (\<lambda>i. (i, rounded_score k list_a list_b i)) (first_encountered list_a list_b)))"
      by (rule set_mset_mono)
    then have "set out \<subseteq>
        set (map (\<lambda>i. (i, rounded_score k list_a list_b i)) (first_encountered list_a list_b))"
      by simp
    then show "\<forall>(i, score) \<in> set out.
        i \<in> fst ` set list_a \<union> fst ` set list_b \<and> score = rounded_score k list_a list_b i"
      using first_encountered_set[of list_a list_b] by auto
  qed
  have err: "\<forall>i. \<bar>rounded_score k list_a list_b i - rrf_score k list_a list_b i\<bar> \<le> 1 / 10 ^ 20"
    using rounded_score_error[OF assms(1) assms(4)] by blast
  have ex: "rounded_score 60 [(1, 1), (2, 2)] [(2, 1), (3, 2)] 1
             < rounded_score 60 [(1, 1), (2, 2)] [(2, 1), (3, 2)] 2
         \<and> rounded_score 60 [(1, 1), (2, 2)] [(2, 1), (3, 2)] 3
             < rounded_score 60 [(1, 1), (2, 2)] [(2, 1), (3, 2)] 2"
    by (simp add: rounded_score_def numeric_quotient_def)
  show ?thesis
    using rows res err ex first_encountered_set[of list_a list_b]
      first_encountered_distinct[OF assms(2) assms(3)]
    by blast
qed

theorem rrf_scoring_witness:
  "(0::int) < 60 \<and> distinct (map fst [(1::int, 1::int), (2, 2)]) \<and> distinct (map fst [(2::int, 1::int), (3, 2)])
   \<and> list_all (\<lambda>(i, rank). 1 \<le> rank \<and> 60 + rank < 10000) ([(1::int, 1::int), (2, 2)] @ [(2, 1), (3, 2)])
   \<and> select_rows postgres_numeric 60 (full_outer_join [(1, 1), (2, 2)] [(2, 1), (3, 2)])
       = Inr [(1, rounded_score 60 [(1, 1), (2, 2)] [(2, 1), (3, 2)] 1),
              (2, rounded_score 60 [(1, 1), (2, 2)] [(2, 1), (3, 2)] 2),
              (3, rounded_score 60 [(1, 1), (2, 2)] [(2, 1), (3, 2)] 3)]
   \<and> rounded_score 60 [(1, 1), (2, 2)] [(2, 1), (3, 2)] 2 = 3252247488101533580 / 100000000000000000000"
proof -
  have h: "(0::int) < 60" "distinct (map fst [(1::int, 1::int), (2, 2)])"
    "distinct (map fst [(2::int, 1::int), (3, 2)])"
    "\<forall>(i, rank) \<in> set [(1::int, 1::int), (2, 2)] \<union> set [(2, 1), (3, 2)]. 1 \<le> rank \<and> 60 + rank < 10000"
    by simp_all
  have v: "rounded_score 60 [(1, 1), (2, 2)] [(2, 1), (3, 2)] 2 = 3252247488101533580 / 100000000000000000000"
    by (simp add: rounded_score_def numeric_quotient_def)
  show ?thesis
    using h v rrf_scoring [OF h]
    by (simp add: first_encountered_def)
qed

subsection \<open>The order of the result\<close>

text \<open>
  Claim C4, as stated: ids with equal fused score come in the order in which a scan of
  \<open>list_a\<close> and then of \<open>list_b\<close> meets them. It fails. With \<open>k = 1\<close>, id 1 at rank 2 in
  both lists and id 2 at rank 5 in the first and rank 1 in the second, both ids have the
  fused score \<open>2/3\<close>, and id 1 is met first. The statement orders by the scores it
  computes: \<open>0.33333333333333333333\<close> twice for id 1, and \<open>0.16666666666666666667\<close> plus
  \<open>0.5\<close> for id 2, which is higher. So id 2 comes first; the scores differ, and no other
  outcome is possible.
\<close>

theorem fusion_tie_order_counterexample:
  "HYBRID_SEARCH_SQL postgres_numeric [(3, 1), (1, 2), (4, 3), (5, 4), (2, 5)] [(2, 1), (1, 2)] 1 2
     (Inr [(2, 66666666666666666667 / 100000000000000000000),
           (1, 66666666666666666666 / 100000000000000000000)])
   \<and> fuse_stable [(3, 1), (1, 2), (4, 3), (5, 4), (2, 5)] [(2, 1), (1, 2)] 1 2 = [(1, 2 / 3), (2, 2 / 3)]"
  by (simp add: HYBRID_SEARCH_SQL_def full_outer_join_def select_row_def postgres_numeric_def
      base10000_digits_def numeric_quotient_def fuse_stable_def rrf_score_def
      first_encountered_def eval_nat_numeral)

lemma fusion_rounding_only_outcome:
  assumes "HYBRID_SEARCH_SQL postgres_numeric [(3, 1), (1, 2), (4, 3), (5, 4), (2, 5)] [(2, 1), (1, 2)] 1 2 cursor"
  shows "cursor = Inr [(2, 66666666666666666667 / 100000000000000000000),
                       (1, 66666666666666666666 / 100000000000000000000)]"
proof -
  let ?rows = "[(3::int, 1 / 2 :: rat), (1, 66666666666666666666 / 100000000000000000000), (4, 1 / 4),
                (5, 1 / 5), (2, 66666666666666666667 / 100000000000000000000)]"
  have rows: "select_rows postgres_numeric 1 (full_outer_join [(3, 1), (1, 2), (4, 3), (5, 4), (2, 5)] [(2, 1), (1, 2)])
      = Inr ?rows"
    by (simp add: full_outer_join_def select_row_def postgres_numeric_def base10000_digits_def
        numeric_quotient_def)
  obtain out where c: "cursor = Inr out" and ob: "order_by_score_desc_limit ?rows (Suc (Suc 0)) out"
    using assms rows by (cases cursor) (simp_all add: HYBRID_SEARCH_SQL_def eval_nat_numeral)
  obtain r1 out1 where o1: "out = r1 # out1" using ob by (cases out) simp_all
  have r1: "r1 = (2, 66666666666666666667 / 100000000000000000000)"
    using ob o1 by auto
  have ob1: "order_by_score_desc_limit
      [(3::int, 1 / 2 :: rat), (1, 66666666666666666666 / 100000000000000000000), (4, 1 / 4), (5, 1 / 5)]
      (Suc 0) out1"
    using ob o1 r1 by simp
  obtain r2 out2 where o2: "out1 = r2 # out2" using ob1 by (cases out1) simp_all
  have r2: "r2 = (1, 66666666666666666666 / 100000000000000000000)"
    using ob1 o2 by auto
  have "out2 = []" using ob1 o2 by simp
  then show ?thesis using c o1 o2 r1 r2 by simp
qed

text \<open>
  Claim C4, amended. For lists without repeated ids, when no score term raises and the
  limit is not negative, the statement has a result, and every result lists rows of the
  computed ranking in descending computed score, as many as the limit allows; no row
  left out has a higher computed score than a row returned. The statement orders by the
  computed score alone: ids with equal fused score need not come in the order of first
  encounter, and the order of ids with equal computed score is not promised.
\<close>

theorem fusion_order:
  assumes "distinct (map fst list_a)" and "distinct (map fst list_b)"
    and "\<forall>(i, rank) \<in> set list_a \<union> set list_b. \<exists>q. reciprocal P k (Some rank) = Inr q"
    and "0 \<le> limit"
  shows "(\<forall>cursor. HYBRID_SEARCH_SQL P list_a list_b k limit cursor \<longrightarrow>
            (\<exists>out. cursor = Inr out \<and> descending out
               \<and> length out = min (nat limit) (length (fused P k list_a list_b))
               \<and> mset out \<subseteq># mset (fused P k list_a list_b)
               \<and> (\<forall>x \<in> set out. \<forall>y \<in># mset (fused P k list_a list_b) - mset out. snd y \<le> snd x)))
         \<and> (\<exists>cursor. HYBRID_SEARCH_SQL P list_a list_b k limit cursor)"
proof -
  have rows: "select_rows P k (full_outer_join list_a list_b) = Inr (fused P k list_a list_b)"
    by (rule select_rows_fused[OF assms(1) assms(2) assms(3)])
  have 1: "\<forall>cursor. HYBRID_SEARCH_SQL P list_a list_b k limit cursor \<longrightarrow>
            (\<exists>out. cursor = Inr out \<and> descending out
               \<and> length out = min (nat limit) (length (fused P k list_a list_b))
               \<and> mset out \<subseteq># mset (fused P k list_a list_b)
               \<and> (\<forall>x \<in> set out. \<forall>y \<in># mset (fused P k list_a list_b) - mset out. snd y \<le> snd x))"
  proof (intro allI impI)
    fix cursor
    assume h: "HYBRID_SEARCH_SQL P list_a list_b k limit cursor"
    then obtain out where c: "cursor = Inr out"
      and ob: "order_by_score_desc_limit (fused P k list_a list_b) (nat limit) out"
      using rows assms(4) by (cases cursor) (simp_all add: HYBRID_SEARCH_SQL_def)
    show "\<exists>out. cursor = Inr out \<and> descending out
               \<and> length out = min (nat limit) (length (fused P k list_a list_b))
               \<and> mset out \<subseteq># mset (fused P k list_a list_b)
               \<and> (\<forall>x \<in> set out. \<forall>y \<in># mset (fused P k list_a list_b) - mset out. snd y \<le> snd x)"
      using c order_by_descending[OF ob] order_by_length[OF ob] order_by_mset[OF ob]
        order_by_rest[OF ob] by blast
  qed
  have "HYBRID_SEARCH_SQL P list_a list_b k limit
          (Inr (take (nat limit) (sort_key (\<lambda>row. - snd row) (fused P k list_a list_b))))"
    using rows assms(4) order_by_exists by (simp add: HYBRID_SEARCH_SQL_def)
  then have 2: "\<exists>cursor. HYBRID_SEARCH_SQL P list_a list_b k limit cursor" by blast
  show ?thesis using 1 2 by blast
qed

theorem fusion_order_witness:
  "distinct (map fst [(3::int, 1::int), (1, 2), (4, 3), (5, 4), (2, 5)])
   \<and> distinct (map fst [(2::int, 1::int), (1, 2)])
   \<and> list_all (\<lambda>(i, rank). reciprocal postgres_numeric 1 (Some rank) \<noteq> Inl DataError)
        ([(3, 1), (1, 2), (4, 3), (5, 4), (2, 5)] @ [(2, 1), (1, 2)])
   \<and> (0::int) \<le> 2
   \<and> HYBRID_SEARCH_SQL postgres_numeric [(3, 1), (1, 2), (4, 3), (5, 4), (2, 5)] [(2, 1), (1, 2)] 1 2
        (Inr [(2, 66666666666666666667 / 100000000000000000000),
              (1, 66666666666666666666 / 100000000000000000000)])
   \<and> descending [(2, 66666666666666666667 / 100000000000000000000),
                 (1, 66666666666666666666 / 100000000000000000000)]"
proof -
  have d: "distinct (map fst [(3::int, 1::int), (1, 2), (4, 3), (5, 4), (2, 5)])"
    "distinct (map fst [(2::int, 1::int), (1, 2)])"
    by simp_all
  have ok: "\<forall>(i, rank) \<in> set [(3::int, 1::int), (1, 2), (4, 3), (5, 4), (2, 5)] \<union> set [(2, 1), (1, 2)].
      \<exists>q. reciprocal postgres_numeric 1 (Some rank) = Inr q"
    by (simp add: postgres_numeric_def)
  have l: "(0::int) \<le> 2" by simp
  have la: "list_all (\<lambda>(i, rank). reciprocal postgres_numeric 1 (Some rank) \<noteq> Inl DataError)
        ([(3, 1), (1, 2), (4, 3), (5, 4), (2, 5)] @ [(2, 1), (1, 2)])"
    by (simp add: postgres_numeric_def)
  have c: "HYBRID_SEARCH_SQL postgres_numeric [(3, 1), (1, 2), (4, 3), (5, 4), (2, 5)] [(2, 1), (1, 2)] 1 2
        (Inr [(2, 66666666666666666667 / 100000000000000000000),
              (1, 66666666666666666666 / 100000000000000000000)])"
    by (simp add: HYBRID_SEARCH_SQL_def full_outer_join_def select_row_def postgres_numeric_def
        base10000_digits_def numeric_quotient_def eval_nat_numeral)
  show ?thesis
    using d la l c fusion_order [OF d ok l] by auto
qed

subsection \<open>The documents\<close>

lemma hydrate_length:
  "set result_ids \<subseteq> product_id ` set products \<Longrightarrow>
   length (hydrate fmt products documents result_ids) = length documents + length result_ids"
proof (induction result_ids arbitrary: documents)
  case Nil
  then show ?case by simp
next
  case (Cons i result_ids)
  then have "fetchone products i \<noteq> None"
    by (auto simp: fetchone_def find_None_iff)
  then obtain row where "fetchone products i = Some row" by auto
  then show ?case using Cons by simp
qed

lemma postgres_numeric_no_raise:
  assumes "1 \<le> rank" and "60 + rank < 2 ^ 63"
  shows "\<exists>q. reciprocal postgres_numeric 60 (Some rank) = Inr q"
  using assms by (simp add: postgres_numeric_def)

text \<open>
  Claim C7. When the two rankings hold no repeated id, no score term raises (none does
  for ranks from 1 in the range of \<open>bigint\<close>, for any arithmetic that raises only on
  overflow and a zero divisor), their ids are ids of the table,
  and \<open>max_results = n\<close> is not negative, every possible result of
  \<open>_get_relevant_documents\<close> is a list of at most \<open>n\<close> documents, and of fewer than \<open>n\<close>
  only when the two rankings together hold fewer than \<open>n\<close> distinct ids: its length is
  the smaller of \<open>n\<close> and the number of those ids. Such a result exists.
\<close>

theorem retrieve_result_bound:
  assumes "distinct (map fst semantic)" and "distinct (map fst keyword)"
    and "\<forall>(i, rank) \<in> set semantic \<union> set keyword. \<exists>q. reciprocal P 60 (Some rank) = Inr q"
    and "fst ` set semantic \<union> fst ` set keyword \<subseteq> product_id ` set products"
    and "0 \<le> n"
  shows "(\<forall>cursor res. get_relevant_documents P fmt products n semantic keyword cursor res \<longrightarrow>
            (\<exists>docs. res = Inr docs \<and> length docs \<le> nat n
               \<and> length docs = min (nat n) (card (fst ` set semantic \<union> fst ` set keyword))))
         \<and> (\<exists>cursor res. get_relevant_documents P fmt products n semantic keyword cursor res)"
proof -
  have rows: "select_rows P 60 (full_outer_join semantic keyword) = Inr (fused P 60 semantic keyword)"
    by (rule select_rows_fused[OF assms(1) assms(2) assms(3)])
  have 1: "\<forall>cursor res. get_relevant_documents P fmt products n semantic keyword cursor res \<longrightarrow>
            (\<exists>docs. res = Inr docs \<and> length docs \<le> nat n
               \<and> length docs = min (nat n) (card (fst ` set semantic \<union> fst ` set keyword)))"
  proof (intro allI impI)
    fix cursor res
    assume h: "get_relevant_documents P fmt products n semantic keyword cursor res"
    then have sql: "HYBRID_SEARCH_SQL P semantic keyword 60 n cursor"
      and r: "res = documents_of fmt products cursor"
      by (simp_all add: get_relevant_documents_def)
    obtain out where c: "cursor = Inr out"
      and ob: "order_by_score_desc_limit (fused P 60 semantic keyword) (nat n) out"
      using sql rows assms(5) by (cases cursor) (simp_all add: HYBRID_SEARCH_SQL_def)
    have len: "length out = min (nat n) (card (fst ` set semantic \<union> fst ` set keyword))"
      using order_by_length[OF ob] fused_length[OF assms(1) assms(2)] by simp
    have "set_mset (mset out) \<subseteq> set_mset (mset (fused P 60 semantic keyword))"
      using order_by_mset[OF ob] by (rule set_mset_mono)
    then have "set out \<subseteq> set (fused P 60 semantic keyword)" by simp
    then have "fst ` set out \<subseteq> fst ` set semantic \<union> fst ` set keyword"
      using first_encountered_set[of semantic keyword] by (auto simp: fused_def)
    then have "fst ` set out \<subseteq> product_id ` set products"
      by (rule order_trans[OF _ assms(4)])
    then have ids: "set (map fst out) \<subseteq> product_id ` set products"
      by simp
    have hl: "length (hydrate fmt products [] (map fst out)) = length out"
      using hydrate_length[OF ids, of fmt "[]"] by simp
    have "res = Inr (hydrate fmt products [] (map fst out))"
      using r c by (cases out) (simp_all add: documents_of_def)
    then show "\<exists>docs. res = Inr docs \<and> length docs \<le> nat n
               \<and> length docs = min (nat n) (card (fst ` set semantic \<union> fst ` set keyword))"
      using hl len by simp
  qed
  have "HYBRID_SEARCH_SQL P semantic keyword 60 n
          (Inr (take (nat n) (sort_key (\<lambda>row. - snd row) (fused P 60 semantic keyword))))"
    using rows assms(5) order_by_exists by (simp add: HYBRID_SEARCH_SQL_def)
  then have 2: "\<exists>cursor res. get_relevant_documents P fmt products n semantic keyword cursor res"
    by (auto simp: get_relevant_documents_def)
  show ?thesis using 1 2 by blast
qed

theorem retrieve_result_bound_witness:
  "distinct (map fst [(1::int, 1::int), (2, 2)]) \<and> distinct (map fst [(2::int, 1::int), (3, 2)])
   \<and> list_all (\<lambda>(i, rank). reciprocal postgres_numeric 60 (Some rank) \<noteq> Inl DataError)
        ([(1, 1), (2, 2)] @ [(2, 1), (3, 2)])
   \<and> fst ` set [(1::int, 1::int), (2, 2)] \<union> fst ` set [(2, 1), (3, 2)] \<subseteq> product_id ` set catalog
   \<and> (0::int) \<le> 2
   \<and> get_relevant_documents postgres_numeric (\<lambda>p. p) catalog 2 [(1, 1), (2, 2)] [(2, 1), (3, 2)]
        (Inr [(2, 3252247488101533580 / 100000000000000000000),
              (1, 1639344262295081967 / 100000000000000000000)])
        (Inr [Document (\<lambda>p. p) (catalog ! 1), Document (\<lambda>p. p) (catalog ! 0)])
   \<and> length [Document (\<lambda>p. p) (catalog ! 1), Document (\<lambda>p. p) (catalog ! 0)]
       = min (nat 2) (card (fst ` set [(1::int, 1::int), (2, 2)] \<union> fst ` set [(2, 1), (3, 2)]))"
proof -
  have d: "distinct (map fst [(1::int, 1::int), (2, 2)])" "distinct (map fst [(2::int, 1::int), (3, 2)])"
    by simp_all
  have ok: "\<forall>(i, rank) \<in> set [(1::int, 1::int), (2, 2)] \<union> set [(2, 1), (3, 2)].
      \<exists>q. reciprocal postgres_numeric 60 (Some rank) = Inr q"
    by (simp add: postgres_numeric_def)
  have la: "list_all (\<lambda>(i, rank). reciprocal postgres_numeric 60 (Some rank) \<noteq> Inl DataError)
        ([(1, 1), (2, 2)] @ [(2, 1), (3, 2)])"
    by (simp add: postgres_numeric_def)
  have ids: "fst ` set [(1::int, 1::int), (2, 2)] \<union> fst ` set [(2, 1), (3, 2)] \<subseteq> product_id ` set catalog"
    by (simp add: catalog_def)
  have n: "(0::int) \<le> 2" by simp
  have g: "get_relevant_documents postgres_numeric (\<lambda>p. p) catalog 2 [(1, 1), (2, 2)] [(2, 1), (3, 2)]
        (Inr [(2, 3252247488101533580 / 100000000000000000000),
              (1, 1639344262295081967 / 100000000000000000000)])
        (Inr [Document (\<lambda>p. p) (catalog ! 1), Document (\<lambda>p. p) (catalog ! 0)])"
    by (simp add: get_relevant_documents_def HYBRID_SEARCH_SQL_def full_outer_join_def
        select_row_def postgres_numeric_def base10000_digits_def numeric_quotient_def
        documents_of_def fetchone_def catalog_def eval_nat_numeral)
  have "fst ` set [(1::int, 1::int), (2, 2)] \<union> fst ` set [(2, 1), (3, 2)] = {1, 2, 3}"
    by auto
  then have c: "card (fst ` set [(1::int, 1::int), (2, 2)] \<union> fst ` set [(2, 1), (3, 2)]) = 3"
    by simp
  show ?thesis
    using d la ids n g c retrieve_result_bound [OF d ok ids n, of "\<lambda>p. p"] by simp
qed

section \<open>Saving a fact\<close>

lemma escaped_user_id_simps:
  "escaped_user_id [] = []"
  "escaped_user_id (c # s) = (if c = 45 then [backslash, 45] else [c]) @ escaped_user_id s"
  by (simp_all add: escaped_user_id_def py_replace1_def)

lemma escaped_user_id_head:
  "escaped_user_id s \<noteq> 45 # rest" "45 # rest \<noteq> escaped_user_id s"
  by (cases s; auto simp: escaped_user_id_simps backslash_def)+

lemma escaped_user_id_inj: "escaped_user_id s = escaped_user_id t \<Longrightarrow> s = t"
proof (induction s arbitrary: t)
  case Nil
  then show ?case by (cases t) (auto simp: escaped_user_id_simps split: if_splits)
next
  case (Cons c s)
  show ?case
  proof (cases t)
    case Nil
    then show ?thesis using Cons.prems by (auto simp: escaped_user_id_simps split: if_splits)
  next
    case (Cons d t')
    have "c = d \<and> escaped_user_id s = escaped_user_id t'"
      using Cons.prems Cons
      by (auto simp: escaped_user_id_simps escaped_user_id_head backslash_def split: if_splits)
    then show ?thesis using Cons.IH Cons by simp
  qed
qed

lemma owner_query_inj: "owner_query s = owner_query t \<longleftrightarrow> s = t"
  by (auto simp: owner_query_def dest: escaped_user_id_inj)

lemma get_all_memories_owner_search:
  "get_all_memories owner_search r uid = Inr (map (\<lambda>(k, m). content m) (take 100 (facts_of r uid)))"
proof -
  have "filter (\<lambda>m. owner_query (user_id m) = owner_query uid) (map snd (filter (\<lambda>(k, m). has_prefix k) r))
      = map snd (facts_of r uid)"
    by (induction r) (auto simp: facts_of_def owner_query_inj)
  then show ?thesis
    by (simp add: get_all_memories_def owner_search_def take_map case_prod_beta)
qed

lemma is_duplicate_iff:
  "is_duplicate U normalized existing \<longleftrightarrow> (\<exists>mem \<in> set existing. lower U (py_strip U mem) = normalized)"
  by (induction existing) auto

lemma hset_fresh: "key \<notin> fst ` set r \<Longrightarrow> hset r key m = r @ [(key, m)]"
  by (induction r) auto

lemma has_prefix_PREFIX: "has_prefix (PREFIX @ hex12)"
  by (simp add: has_prefix_def)

lemma facts_of_app: "facts_of (r @ s) uid = facts_of r uid @ facts_of s uid"
  by (simp add: facts_of_def)

lemma facts_of_append:
  "facts_of (r @ [(PREFIX @ hex12, m)]) uid
     = facts_of r uid @ (if user_id m = uid then [(PREFIX @ hex12, m)] else [])"
  by (simp add: facts_of_def has_prefix_PREFIX)

text \<open>
  Below the cap of \<open>get_all_memories\<close> the save is idempotent: after a save of \<open>c\<close>, a
  second save of \<open>c\<close> finds the match and stores nothing.
\<close>

lemma save_twice_below_cap:
  assumes "length (facts_of r uid) < 100" and "PREFIX @ hex12 \<notin> fst ` set r"
    and "save_memory U owner_search r uid c hex12 now = Inr (key, r1)"
  shows "save_memory U owner_search r1 uid c hex12' now' = Inr ([], r1)"
proof (cases "is_duplicate U (lower U (py_strip U c)) (map (\<lambda>(k, m). content m) (take 100 (facts_of r uid)))")
  case True
  then have "r1 = r"
    using assms(3) by (simp add: save_memory_def get_all_memories_owner_search Let_def)
  then show ?thesis
    using True by (simp add: save_memory_def get_all_memories_owner_search Let_def)
next
  case False
  then have r1: "r1 = r @ [(PREFIX @ hex12, \<lparr> content = c, user_id = uid, timestamp = now \<rparr>)]"
    using assms(2) assms(3)
    by (auto simp: save_memory_def get_all_memories_owner_search hset_fresh Let_def)
  have "take 100 (facts_of r1 uid)
      = facts_of r uid @ [(PREFIX @ hex12, \<lparr> content = c, user_id = uid, timestamp = now \<rparr>)]"
    using assms(1) by (simp add: r1 facts_of_append)
  then have "is_duplicate U (lower U (py_strip U c)) (map (\<lambda>(k, m). content m) (take 100 (facts_of r1 uid)))"
    by (simp add: is_duplicate_iff)
  then show ?thesis
    by (simp add: save_memory_def get_all_memories_owner_search Let_def)
qed

text \<open>
  At the cap it is not: the scan sees the first hundred facts only, so a fact saved as
  the hundred-and-first is not seen by the next save.
\<close>

lemma save_memory_past_cap:
  assumes "100 \<le> length (facts_of r uid)"
    and "\<forall>(k, m) \<in> set (take 100 (facts_of r uid)). lower U (py_strip U (content m)) \<noteq> lower U (py_strip U c)"
    and "PREFIX @ hex12 \<notin> fst ` set r"
  shows "save_memory U owner_search r uid c hex12 now
       = Inr (PREFIX @ hex12, r @ [(PREFIX @ hex12, \<lparr> content = c, user_id = uid, timestamp = now \<rparr>)])"
proof -
  have "\<not> is_duplicate U (lower U (py_strip U c)) (map (\<lambda>(k, m). content m) (take 100 (facts_of r uid)))"
    using assms(2) by (auto simp: is_duplicate_iff)
  then show ?thesis
    using assms(3) by (simp add: save_memory_def get_all_memories_owner_search hset_fresh Let_def)
qed

lemma facts_of_hundred_facts: "facts_of hundred_facts (ustr ''u1'') = hundred_facts"
  by (simp add: facts_of_def hundred_facts_def has_prefix_PREFIX filter_map comp_def)

lemma length_hundred_facts: "length hundred_facts = 100"
  by (simp add: hundred_facts_def)

lemma length_py_strip: "length (py_strip U s) \<le> length s"
proof -
  have "length (dropWhile (isspace U) (rev (dropWhile (isspace U) s))) \<le> length (dropWhile (isspace U) s)"
    using length_dropWhile_le[of "isspace U" "rev (dropWhile (isspace U) s)"] by simp
  also have "\<dots> \<le> length s" by (rule length_dropWhile_le)
  finally show ?thesis by (simp add: py_strip_def)
qed

lemma hundred_facts_no_match:
  assumes "(k, m) \<in> set hundred_facts"
  shows "lower ascii_unicode (py_strip ascii_unicode (content m))
       \<noteq> lower ascii_unicode (py_strip ascii_unicode (ustr ''Likes tea''))"
proof -
  have "length (content m) = 7"
    using assms by (auto simp: hundred_facts_def ustr_def digits2_def)
  then have "length (lower ascii_unicode (py_strip ascii_unicode (content m))) \<le> 7"
    using length_py_strip[of ascii_unicode "content m"]
    by (simp add: ascii_unicode_def ascii_lower_def)
  moreover have "length (lower ascii_unicode (py_strip ascii_unicode (ustr ''Likes tea''))) = 9"
    by (simp add: unicode_defs ustr_def)
  ultimately show ?thesis by auto
qed

lemma hundred_facts_keys:
  assumes "hd hex12 \<noteq> 48" and "hex12 \<noteq> []"
  shows "PREFIX @ hex12 \<notin> fst ` set hundred_facts"
  using assms by (cases hex12) (auto simp: hundred_facts_def ustr_def)

text \<open>
  Claim C2, on the code: saving a content twice stores one fact. The code breaks it for
  an owner with a hundred facts. The first save of \<open>Likes tea\<close> appends the fact; the
  second save appends it again, because \<open>get_all_memories\<close> returns the first hundred
  facts and the new one is not among them; the owner's list shows neither.
\<close>

theorem save_twice_at_cap_stores_twice:
  "save_memory ascii_unicode owner_search hundred_facts (ustr ''u1'') (ustr ''Likes tea'')
     (ustr ''aaaaaaaaaaaa'') (ustr ''1'')
   = Inr (PREFIX @ ustr ''aaaaaaaaaaaa'',
          hundred_facts @ [(PREFIX @ ustr ''aaaaaaaaaaaa'',
             \<lparr> content = ustr ''Likes tea'', user_id = ustr ''u1'', timestamp = ustr ''1'' \<rparr>)])
   \<and> save_memory ascii_unicode owner_search
     (hundred_facts @ [(PREFIX @ ustr ''aaaaaaaaaaaa'',
             \<lparr> content = ustr ''Likes tea'', user_id = ustr ''u1'', timestamp = ustr ''1'' \<rparr>)])
     (ustr ''u1'') (ustr ''Likes tea'') (ustr ''bbbbbbbbbbbb'') (ustr ''2'')
   = Inr (PREFIX @ ustr ''bbbbbbbbbbbb'',
          hundred_facts @ [(PREFIX @ ustr ''aaaaaaaaaaaa'',
             \<lparr> content = ustr ''Likes tea'', user_id = ustr ''u1'', timestamp = ustr ''1'' \<rparr>)]
            @ [(PREFIX @ ustr ''bbbbbbbbbbbb'',
             \<lparr> content = ustr ''Likes tea'', user_id = ustr ''u1'', timestamp = ustr ''2'' \<rparr>)])
   \<and> get_all_memories owner_search
        (hundred_facts @ [(PREFIX @ ustr ''aaaaaaaaaaaa'',
             \<lparr> content = ustr ''Likes tea'', user_id = ustr ''u1'', timestamp = ustr ''1'' \<rparr>)]
            @ [(PREFIX @ ustr ''bbbbbbbbbbbb'',
             \<lparr> content = ustr ''Likes tea'', user_id = ustr ''u1'', timestamp = ustr ''2'' \<rparr>)])
        (ustr ''u1'')
      = get_all_memories owner_search hundred_facts (ustr ''u1'')"
proof -
  let ?m1 = "\<lparr> content = ustr ''Likes tea'', user_id = ustr ''u1'', timestamp = ustr ''1'' \<rparr>"
  let ?m2 = "\<lparr> content = ustr ''Likes tea'', user_id = ustr ''u1'', timestamp = ustr ''2'' \<rparr>"
  let ?k1 = "PREFIX @ ustr ''aaaaaaaaaaaa''"
  let ?k2 = "PREFIX @ ustr ''bbbbbbbbbbbb''"
  let ?r1 = "hundred_facts @ [(?k1, ?m1)]"
  have f0: "take 100 (facts_of hundred_facts (ustr ''u1'')) = hundred_facts"
    by (simp add: facts_of_hundred_facts length_hundred_facts)
  have f1: "take 100 (facts_of ?r1 (ustr ''u1'')) = hundred_facts"
    by (simp add: facts_of_app facts_of_hundred_facts length_hundred_facts)
  have f2: "take 100 (facts_of (?r1 @ [(?k2, ?m2)]) (ustr ''u1'')) = hundred_facts"
    by (simp add: facts_of_app facts_of_hundred_facts length_hundred_facts)
  have nm: "\<forall>(k, m) \<in> set hundred_facts.
      lower ascii_unicode (py_strip ascii_unicode (content m))
        \<noteq> lower ascii_unicode (py_strip ascii_unicode (ustr ''Likes tea''))"
    using hundred_facts_no_match by blast
  have k1: "?k1 \<notin> fst ` set hundred_facts"
    by (rule hundred_facts_keys) (simp_all add: ustr_def)
  have "?k2 \<notin> fst ` set hundred_facts"
    by (rule hundred_facts_keys) (simp_all add: ustr_def)
  then have k2: "?k2 \<notin> fst ` set ?r1"
    by (simp add: ustr_def)
  have s1: "save_memory ascii_unicode owner_search hundred_facts (ustr ''u1'') (ustr ''Likes tea'')
     (ustr ''aaaaaaaaaaaa'') (ustr ''1'') = Inr (?k1, ?r1)"
    by (rule save_memory_past_cap[OF _ _ k1])
      (simp_all add: facts_of_hundred_facts length_hundred_facts nm)
  have s2: "save_memory ascii_unicode owner_search ?r1 (ustr ''u1'') (ustr ''Likes tea'')
     (ustr ''bbbbbbbbbbbb'') (ustr ''2'') = Inr (?k2, ?r1 @ [(?k2, ?m2)])"
    by (rule save_memory_past_cap[OF _ _ k2])
      (simp_all add: f1 nm facts_of_app facts_of_hundred_facts length_hundred_facts)
  have g: "get_all_memories owner_search (?r1 @ [(?k2, ?m2)]) (ustr ''u1'')
      = get_all_memories owner_search hundred_facts (ustr ''u1'')"
    by (simp only: get_all_memories_owner_search f0 f2)
  show ?thesis using s1 s2 g by simp
qed

end
